theory Spec2Isabelle
  imports Complex_Main "HOL-Library.Product_Lexorder" "HOL-Library.List_Lexorder"
begin

section \<open>Cards and the deck\<close>

text \<open>
  The source keeps a card as a rank string, a suit symbol and the rank's position in
  \<^verbatim>\<open>RANKS\<close> (\<^verbatim>\<open>rank_value = RANKS.index(rank)\<close>, 0 for "2" up to 12 for "A").
  The position determines the rank string and conversely, so a card is kept here as its
  \<open>rank_value\<close> and its suit; the four suit symbols are the four constructors.
\<close>

datatype suit = Spades | Hearts | Diamonds | Clubs

record card =
  rank_value :: nat
  suit :: suit

definition Card :: "nat \<Rightarrow> suit \<Rightarrow> card" where
  "Card r s = \<lparr>rank_value = r, suit = s\<rparr>"

definition SUITS :: "suit list" where
  "SUITS = [Spades, Hearts, Diamonds, Clubs]"

text \<open>The positions of \<^verbatim>\<open>RANKS\<close>, in the order of the list.\<close>

definition RANKS :: "nat list" where
  "RANKS = [0, 1, 2, 3, 4, 5, 6, 7, 8, 9, 10, 11, 12]"

text \<open>
  Python slices: \<^verbatim>\<open>xs[:c]\<close> and \<^verbatim>\<open>xs[c:]\<close>, where a negative \<open>c\<close> counts
  from the end of the list and is clamped at its start.
\<close>

definition py_take :: "int \<Rightarrow> 'a list \<Rightarrow> 'a list" where
  "py_take c xs = (if 0 \<le> c then take (nat c) xs else take (length xs - nat (- c)) xs)"

definition py_drop :: "int \<Rightarrow> 'a list \<Rightarrow> 'a list" where
  "py_drop c xs = (if 0 \<le> c then drop (nat c) xs else drop (length xs - nat (- c)) xs)"

text \<open>
  \<^verbatim>\<open>Deck.deal(count)\<close>: the deck is the list \<^verbatim>\<open>self.cards\<close>. The call returns
  \<^verbatim>\<open>None\<close> when more cards are asked for than remain, a list when \<open>count > 1\<close>, a single
  card otherwise, and raises \<^verbatim>\<open>IndexError\<close> at \<^verbatim>\<open>cards[0]\<close> when the slice is empty
  (after the deck has been reassigned). The second component is the deck afterwards.
\<close>

datatype deal_result = DealNone | DealOne card | DealMany "card list" | DealIndexError

definition deal :: "card list \<Rightarrow> int \<Rightarrow> deal_result \<times> card list" where
  "deal deck count =
     (if count > int (length deck) then (DealNone, deck)
      else let cards = py_take count deck;
               deck' = py_drop count deck
           in if count > 1 then (DealMany cards, deck')
              else (case cards of [] \<Rightarrow> (DealIndexError, deck')
                                | c # _ \<Rightarrow> (DealOne c, deck')))"

section \<open>Players\<close>

text \<open>
  The player's name is left out: no operation modelled here reads it. The hand, the chip
  stack and the bet of the street are Python values, so the integers are unbounded.
\<close>

record player =
  chips :: int
  hand :: "card list"
  is_active :: bool
  is_ai :: bool
  current_bet :: int

text \<open>\<^verbatim>\<open>Player.place_bet(amount)\<close>: the amount paid and the player afterwards.\<close>

definition place_bet :: "player \<Rightarrow> int \<Rightarrow> int \<times> player" where
  "place_bet p amount =
     (let amount' = (if amount > chips p then chips p else amount)
      in (amount', p\<lparr>chips := chips p - amount', current_bet := current_bet p + amount'\<rparr>))"

text \<open>A sequence of bets placed by one player, first to last.\<close>

fun place_bets :: "player \<Rightarrow> int list \<Rightarrow> player" where
  "place_bets p [] = p"
| "place_bets p (a # as) = place_bets (snd (place_bet p a)) as"

definition fold_player :: "player \<Rightarrow> player" where
  "fold_player p = p\<lparr>is_active := False\<rparr>"

definition clear_hand :: "player \<Rightarrow> player" where
  "clear_hand p = p\<lparr>hand := [], is_active := True, current_bet := 0\<rparr>"

section \<open>The hand evaluator\<close>

text \<open>
  The exceptions of Python that the modelled code can raise. \<open>NoneInHand\<close> is no
  exception: it marks the one place where the source goes on with a value that the model
  does not hold, \<^verbatim>\<open>None\<close> appended to a hand when the deck has run out.
\<close>

datatype py_error = IndexError | ValueError | ZeroDivisionError | NoneInHand

text \<open>\<^verbatim>\<open>xs[0]\<close>, which raises \<^verbatim>\<open>IndexError\<close> on the empty list.\<close>

definition first :: "'a list \<Rightarrow> py_error + 'a" where
  "first xs = (case xs of [] \<Rightarrow> Inl IndexError | x # _ \<Rightarrow> Inr x)"

text \<open>
  A hand score is the tuple \<^verbatim>\<open>(hand_rank, tie_breakers)\<close>. Python compares tuples and
  lists lexicographically, a proper prefix being smaller; this is the order of pairs and
  of lists used here.
\<close>

type_synonym hand_score = "nat \<times> nat list"

text \<open>
  \<^verbatim>\<open>Counter(ranks)\<close>: a dictionary in insertion order, as the list of its items. Each
  rank read either increments its entry in place or is appended with count 1.
\<close>

fun counter_add :: "nat \<Rightarrow> (nat \<times> nat) list \<Rightarrow> (nat \<times> nat) list" where
  "counter_add r [] = [(r, 1)]"
| "counter_add r ((k, c) # kcs) =
     (if k = r then (k, c + 1) # kcs else (k, c) # counter_add r kcs)"

definition Counter :: "nat list \<Rightarrow> (nat \<times> nat) list" where
  "Counter rs = fold counter_add rs []"

text \<open>\<^verbatim>\<open>rank_count[r]\<close>; a counter answers 0 for a key it does not hold.\<close>

definition counter_get :: "(nat \<times> nat) list \<Rightarrow> nat \<Rightarrow> nat" where
  "counter_get rc r = (case map_of rc r of None \<Rightarrow> 0 | Some c \<Rightarrow> c)"

text \<open>
  \<^verbatim>\<open>sorted(xs, key=key, reverse=True)\<close>: the stable sort of the reversed list, reversed,
  so that elements with equal keys keep their order.
\<close>

definition sorted_reverse :: "('a \<Rightarrow> 'k::linorder) \<Rightarrow> 'a list \<Rightarrow> 'a list" where
  "sorted_reverse key xs = rev (sort_key key (rev xs))"

text \<open>\<^verbatim>\<open>itertools.combinations(xs, k)\<close>, in the order in which it yields.\<close>

fun combinations :: "'a list \<Rightarrow> nat \<Rightarrow> 'a list list" where
  "combinations xs 0 = [[]]"
| "combinations [] (Suc k) = []"
| "combinations (x # xs) (Suc k) =
     map ((#) x) (combinations xs k) @ combinations xs (Suc k)"

text \<open>
  \<^verbatim>\<open>max(items, key=key)\<close>: the first item whose key is maximal (a later item replaces
  the current one only when its key is strictly greater); \<^verbatim>\<open>ValueError\<close> when there
  is no item.
\<close>

fun py_max_key :: "('a \<Rightarrow> 'k::linorder) \<Rightarrow> 'a list \<Rightarrow> py_error + 'a" where
  "py_max_key key [] = Inl ValueError"
| "py_max_key key (x # xs) = Inr (fold (\<lambda>y m. if key m < key y then y else m) xs x)"

text \<open>
  The items of a generator whose elements may raise: the list of the values, or the first
  exception.
\<close>

fun collect :: "(py_error + 'a) list \<Rightarrow> py_error + 'a list" where
  "collect [] = Inr []"
| "collect (Inl e # _) = Inl e"
| "collect (Inr x # rs) = (case collect rs of Inl e \<Rightarrow> Inl e | Inr xs \<Rightarrow> Inr (x # xs))"

text \<open>
  The body of \<^verbatim>\<open>evaluate_hand\<close> below its two length tests, which the source reaches
  with exactly five cards.
\<close>

definition evaluate_five :: "card list \<Rightarrow> py_error + hand_score" where
  "evaluate_five cards =
     (let ranks = map rank_value cards;
          suits = map suit cards;
          is_flush = (card (set suits) = 1);
          rank_count = Counter ranks;
          rank_values = sort (remdups ranks);
          is_straight =
            (if set rank_values = {0, 9, 10, 11, 12} then True
             else length rank_values = 5 \<and> Max (set rank_values) - Min (set rank_values) = 4);
          straight_high =
            (if set rank_values = {0, 9, 10, 11, 12} then 12
             else if is_straight then Max (set rank_values) else 0)
      in if is_flush \<and> set ranks = {8, 9, 10, 11, 12} then Inr (9, [])
         else if is_flush \<and> is_straight then Inr (8, [straight_high])
         else if 4 \<in> set (map snd rank_count) then
           (case first (map fst (filter (\<lambda>(r, c). c = 4) rank_count)) of
              Inl e \<Rightarrow> Inl e
            | Inr four_rank \<Rightarrow>
                (case first (filter (\<lambda>r. r \<noteq> four_rank) ranks) of
                   Inl e \<Rightarrow> Inl e
                 | Inr kicker \<Rightarrow> Inr (7, [four_rank, kicker])))
         else if 3 \<in> set (map snd rank_count) \<and> 2 \<in> set (map snd rank_count) then
           (case first (map fst (filter (\<lambda>(r, c). c = 3) rank_count)) of
              Inl e \<Rightarrow> Inl e
            | Inr three_rank \<Rightarrow>
                (case first (map fst (filter (\<lambda>(r, c). c = 2) rank_count)) of
                   Inl e \<Rightarrow> Inl e
                 | Inr two_rank \<Rightarrow> Inr (6, [three_rank, two_rank])))
         else if is_flush then Inr (5, sorted_reverse id ranks)
         else if is_straight then Inr (4, [straight_high])
         else if 3 \<in> set (map snd rank_count) then
           (case first (map fst (filter (\<lambda>(r, c). c = 3) rank_count)) of
              Inl e \<Rightarrow> Inl e
            | Inr three_rank \<Rightarrow>
                Inr (3, three_rank # sorted_reverse id (filter (\<lambda>r. r \<noteq> three_rank) ranks)))
         else if count_list (map snd rank_count) 2 = 2 then
           (case first (filter (\<lambda>r. counter_get rank_count r = 1) ranks) of
              Inl e \<Rightarrow> Inl e
            | Inr kicker \<Rightarrow>
                Inr (2, sorted_reverse id (map fst (filter (\<lambda>(r, c). c = 2) rank_count)) @ [kicker]))
         else if 2 \<in> set (map snd rank_count) then
           (case first (map fst (filter (\<lambda>(r, c). c = 2) rank_count)) of
              Inl e \<Rightarrow> Inl e
            | Inr pair_rank \<Rightarrow>
                Inr (1, pair_rank # sorted_reverse id (filter (\<lambda>r. r \<noteq> pair_rank) ranks)))
         else Inr (0, sorted_reverse id ranks))"

text \<open>
  \<^verbatim>\<open>evaluate_hand(cards)\<close>. The recursive calls of the source are made on the
  five-card combinations only, where they run the five-card body.
\<close>

definition evaluate_hand :: "card list \<Rightarrow> py_error + hand_score" where
  "evaluate_hand cards =
     (if length cards < 5 then Inr (0, map rank_value (sorted_reverse rank_value cards))
      else if length cards > 5 then
        (case collect (map evaluate_five (combinations cards 5)) of
           Inl e \<Rightarrow> Inl e
         | Inr scores \<Rightarrow> py_max_key (\<lambda>x. (fst x, snd x)) scores)
      else evaluate_five cards)"

subsection \<open>The best five cards, by enumeration\<close>

text \<open>
  What the specification asks of a hand of more than five cards, written from its words
  and not from the source: the five-card subsets of the input, each as a hand in the order
  of the input, and the greatest of their scores in the order of hand scores.
\<close>

definition five_card_subsets :: "card list \<Rightarrow> card list list" where
  "five_card_subsets cards = filter (\<lambda>h. length h = 5) (subseqs cards)"

definition best_five_card_score :: "card list \<Rightarrow> py_error + hand_score" where
  "best_five_card_score cards =
     (case collect (map evaluate_hand (five_card_subsets cards)) of
        Inl e \<Rightarrow> Inl e
      | Inr scores \<Rightarrow> Inr (Max (set scores)))"

section \<open>The game\<close>

text \<open>
  The fields of \<^verbatim>\<open>PokerGame\<close> that the round reads and writes. The table's
  \<^verbatim>\<open>current_bet\<close> is \<open>game_current_bet\<close> here, the name \<open>current_bet\<close> being the
  player's field.
\<close>

record game =
  players :: "player list"
  deck :: "card list"
  community_cards :: "card list"
  pot :: int
  game_current_bet :: int
  dealer_idx :: nat
  current_player_idx :: nat
  small_blind :: int
  big_blind :: int

text \<open>
  The action strings \<^verbatim>\<open>"fold"\<close>, \<^verbatim>\<open>"check"\<close>, \<^verbatim>\<open>"call"\<close> and
  \<^verbatim>\<open>"raise N"\<close>; \<open>Raise n\<close> carries the integer that \<^verbatim>\<open>betting_round\<close> reads back
  with \<^verbatim>\<open>int(action.split()[1])\<close>.
\<close>

datatype action = Fold | Check | Call | Raise int

text \<open>\<^verbatim>\<open>xs[i]\<close> for a non-negative index.\<close>

definition index :: "'a list \<Rightarrow> nat \<Rightarrow> py_error + 'a" where
  "index xs i = (if i < length xs then Inr (xs ! i) else Inl IndexError)"

subsection \<open>The automated decision\<close>

text \<open>
  The test \<^verbatim>\<open>hand_rank >= 1 or (hand[0].rank_value > 9 and hand[1].rank_value > 9)\<close>,
  with the short-circuit evaluation of \<^verbatim>\<open>or\<close> and \<^verbatim>\<open>and\<close>.
\<close>

definition good_starting_hand :: "nat \<Rightarrow> card list \<Rightarrow> py_error + bool" where
  "good_starting_hand hand_rank h =
     (if hand_rank \<ge> 1 then Inr True
      else case index h 0 of
             Inl e \<Rightarrow> Inl e
           | Inr c0 \<Rightarrow>
               if rank_value c0 > 9 then
                 (case index h 1 of Inl e \<Rightarrow> Inl e | Inr c1 \<Rightarrow> Inr (rank_value c1 > 9))
               else Inr False)"

text \<open>
  The literals \<^verbatim>\<open>0.7\<close> and \<^verbatim>\<open>0.3\<close> of the source are doubles: the values that
  Python reads them as, each a little below the decimal fraction.
\<close>

definition double_0_7 :: real where
  "double_0_7 = 3152519739159347 / 4503599627370496"

definition double_0_3 :: real where
  "double_0_3 = 5404319552844595 / 18014398509481984"

text \<open>
  \<^verbatim>\<open>PokerGame.ai_decision(player, amount_to_call)\<close>. Each path draws
  \<^verbatim>\<open>random.random()\<close> at most once; the draw is the argument \<open>r\<close>, the value of the
  double that the call returns. The comparison of two doubles is the comparison of their
  values.
\<close>

definition ai_decision :: "game \<Rightarrow> real \<Rightarrow> player \<Rightarrow> int \<Rightarrow> py_error + action" where
  "ai_decision g r p amount_to_call =
     (case evaluate_hand (hand p @ community_cards g) of
        Inl e \<Rightarrow> Inl e
      | Inr score \<Rightarrow>
          let hand_rank = fst score in
          if length (community_cards g) = 0 then
            (case good_starting_hand hand_rank (hand p) of
               Inl e \<Rightarrow> Inl e
             | Inr good \<Rightarrow>
                 if good then
                   (if amount_to_call = 0 then
                      (let raise_amount = min (chips p) (big_blind g * 2)
                       in Inr (Raise raise_amount))
                    else if amount_to_call \<le> big_blind g * 3 then Inr Call
                    else Inr Fold)
                 else
                   (if amount_to_call = 0 then Inr Check
                    else if amount_to_call \<le> big_blind g then Inr Call
                    else Inr Fold))
          else if hand_rank \<ge> 3 then
            (if r < double_0_7 then
               (let raise_amount = min (chips p) (pot g div 2)
                in Inr (Raise (max (big_blind g) raise_amount)))
             else Inr (if amount_to_call > 0 then Call else Check))
          else if hand_rank \<ge> 1 then
            (if amount_to_call = 0 then
               (if r < double_0_3 then Inr (Raise (big_blind g * 2)) else Inr Check)
             else if amount_to_call \<le> big_blind g * 3 then Inr Call
             else Inr Fold)
          else
            (if amount_to_call = 0 then Inr Check
             else if amount_to_call \<le> big_blind g then
               (if r < double_0_3 then Inr Call else Inr Fold)
             else Inr Fold))"

subsection \<open>A street of betting\<close>

text \<open>
  The decisions that \<^verbatim>\<open>human_decision\<close> returns: the loop of the prompt ends only on
  one of these, for the options it has built from the amount to call and the stack.
\<close>

definition human_accepts :: "player \<Rightarrow> int \<Rightarrow> action \<Rightarrow> bool" where
  "human_accepts p amount_to_call a =
     (case a of
        Fold \<Rightarrow> amount_to_call \<noteq> 0
      | Check \<Rightarrow> amount_to_call = 0
      | Call \<Rightarrow> amount_to_call \<noteq> 0 \<and> chips p \<ge> amount_to_call
      | Raise amount \<Rightarrow>
          (amount_to_call = 0 \<or> chips p > amount_to_call) \<and>
          amount > 0 \<and> chips p \<ge> amount_to_call + amount)"

text \<open>
  The part of the loop body of \<^verbatim>\<open>betting_round\<close> that processes the action of the
  player at seat \<open>i\<close>: the game afterwards, the last raiser afterwards, and whether the
  body has returned \<^verbatim>\<open>False\<close> because one active player is left.
\<close>

definition process_action :: "game \<Rightarrow> nat \<Rightarrow> nat option \<Rightarrow> action \<Rightarrow> game \<times> nat option \<times> bool" where
  "process_action g i last_raiser a =
     (let current_player = players g ! i;
          amount_to_call = game_current_bet g - current_bet current_player
      in case a of
           Fold \<Rightarrow>
             (let g' = g\<lparr>players := (players g)[i := fold_player current_player]\<rparr>
              in (g', last_raiser, length (filter is_active (players g')) = 1))
         | Call \<Rightarrow>
             (let (bet, p') = place_bet current_player amount_to_call
              in (g\<lparr>players := (players g)[i := p'], pot := pot g + bet\<rparr>, last_raiser, False))
         | Check \<Rightarrow> (g, last_raiser, False)
         | Raise amount \<Rightarrow>
             (let raise_amount = amount_to_call + amount;
                  (bet, p') = place_bet current_player raise_amount
              in (g\<lparr>players := (players g)[i := p'], pot := pot g + bet,
                    game_current_bet := current_bet p'\<rparr>, Some i, False)))"

text \<open>
  The head of the loop skips the seats that have folded. Seat after seat it walks at most
  once around the table: when no seat of the table is active the source never leaves this
  walk, which is the value \<open>None\<close>.
\<close>

fun skip_inactive :: "player list \<Rightarrow> nat \<Rightarrow> nat \<Rightarrow> nat option" where
  "skip_inactive ps player_idx 0 = None"
| "skip_inactive ps player_idx (Suc fuel) =
     (if is_active (ps ! player_idx) then Some player_idx
      else skip_inactive ps ((player_idx + 1) mod length ps) fuel)"

text \<open>
  How a street ends: the return value of \<^verbatim>\<open>betting_round\<close> with the game and the
  number of turns taken; or the loop is waiting for a decision that the list of decisions
  no longer holds (the game, the seat to act, the last raiser and the turns so far); or
  the walk over folded seats never ends; or an exception.
\<close>

datatype outcome =
    Finished bool game nat
  | NeedAction game nat "nat option" nat
  | Diverges
  | Raises py_error

text \<open>
  The \<^verbatim>\<open>while\<close> loop of \<^verbatim>\<open>betting_round\<close>. The decision of the player to act,
  \<^verbatim>\<open>ai_decision\<close> or \<^verbatim>\<open>human_decision\<close>, is the next element of the list; what the
  loop prints (the state, the win probability, the name of the hand) has no effect on the
  game and is left out.
\<close>

fun betting_loop :: "game \<Rightarrow> nat \<Rightarrow> nat option \<Rightarrow> nat \<Rightarrow> action list \<Rightarrow> outcome" where
  "betting_loop g player_idx last_raiser turns [] =
     (case skip_inactive (players g) player_idx (length (players g)) of
        None \<Rightarrow> Diverges
      | Some i \<Rightarrow>
          if last_raiser = Some i then
            Finished True
              (g\<lparr>current_player_idx := (dealer_idx g + 1) mod length (players g)\<rparr>) turns
          else NeedAction g i last_raiser turns)"
| "betting_loop g player_idx last_raiser turns (a # acts) =
     (case skip_inactive (players g) player_idx (length (players g)) of
        None \<Rightarrow> Diverges
      | Some i \<Rightarrow>
          if last_raiser = Some i then
            Finished True
              (g\<lparr>current_player_idx := (dealer_idx g + 1) mod length (players g)\<rparr>) turns
          else
            (let last_raiser' = (if last_raiser = None then Some i else last_raiser);
                 g1 = g\<lparr>current_player_idx := i\<rparr>
             in case process_action g1 i last_raiser' a of
                  (g', last_raiser'', stopped) \<Rightarrow>
                    if stopped then Finished False g' (turns + 1)
                    else betting_loop g' ((i + 1) mod length (players g')) last_raiser''
                           (turns + 1) acts))"

definition betting_round :: "game \<Rightarrow> action list \<Rightarrow> outcome" where
  "betting_round g acts =
     (let active_players = filter is_active (players g)
      in if length active_players \<le> 1 then Finished False g 0
         else if current_player_idx g \<ge> length (players g) then Raises IndexError
         else betting_loop g (current_player_idx g) None 0 acts)"

text \<open>
  Whether each decision of the list is one that \<^verbatim>\<open>human_decision\<close> can return at the
  state in which the loop reads it.
\<close>

fun accepted_run :: "game \<Rightarrow> nat \<Rightarrow> nat option \<Rightarrow> action list \<Rightarrow> bool" where
  "accepted_run g player_idx last_raiser [] = True"
| "accepted_run g player_idx last_raiser (a # acts) =
     (case skip_inactive (players g) player_idx (length (players g)) of
        None \<Rightarrow> True
      | Some i \<Rightarrow>
          if last_raiser = Some i then True
          else
            human_accepts (players g ! i)
              (game_current_bet g - current_bet (players g ! i)) a \<and>
            (let last_raiser' = (if last_raiser = None then Some i else last_raiser);
                 g1 = g\<lparr>current_player_idx := i\<rparr>
             in case process_action g1 i last_raiser' a of
                  (g', last_raiser'', stopped) \<Rightarrow>
                    stopped \<or>
                    accepted_run g' ((i + 1) mod length (players g')) last_raiser'' acts))"

subsection \<open>The order of the seats in a street\<close>

text \<open>
  The active seats of the table in the order in which the loop of the street meets them
  when it starts at seat \<open>idx\<close>, and whether a decision is a raise. Both serve the
  statements about the length of a street.
\<close>

definition active_seats :: "player list \<Rightarrow> nat \<Rightarrow> nat list" where
  "active_seats ps idx = filter (\<lambda>j. is_active (ps ! j)) (rotate idx [0..<length ps])"

fun is_raise :: "action \<Rightarrow> bool" where
  "is_raise (Raise n) = True"
| "is_raise a = False"

text \<open>What an outcome says about the end of the street and about the turns taken.\<close>

fun street_finished :: "outcome \<Rightarrow> bool" where
  "street_finished (Finished b g t) = True"
| "street_finished out = False"

fun turns_taken :: "outcome \<Rightarrow> nat option" where
  "turns_taken (Finished b g t) = Some t"
| "turns_taken (NeedAction g i lr t) = Some t"
| "turns_taken out = None"

subsection \<open>The start of a round\<close>

text \<open>\<^verbatim>\<open>Deck.__init__\<close> before the shuffle: suit by suit, each in the order of the ranks.\<close>

definition new_deck :: "card list" where
  "new_deck = concat (map (\<lambda>s. map (\<lambda>r. Card r s) RANKS) SUITS)"

text \<open>
  \<^verbatim>\<open>Player.add_cards\<close> on what \<^verbatim>\<open>Deck.deal\<close> has returned: a list extends the hand,
  anything else is appended to it.
\<close>

definition add_cards :: "player \<Rightarrow> deal_result \<Rightarrow> py_error + player" where
  "add_cards p d =
     (case d of
        DealMany cs \<Rightarrow> Inr (p\<lparr>hand := hand p @ cs\<rparr>)
      | DealOne c \<Rightarrow> Inr (p\<lparr>hand := hand p @ [c]\<rparr>)
      | DealNone \<Rightarrow> Inl NoneInHand
      | DealIndexError \<Rightarrow> Inl IndexError)"

text \<open>
  One pass of \<^verbatim>\<open>for player in self.players: player.add_cards(self.deck.deal())\<close>: the
  players and the deck afterwards.
\<close>

fun deal_round :: "player list \<Rightarrow> card list \<Rightarrow> py_error + (player list \<times> card list)" where
  "deal_round [] d = Inr ([], d)"
| "deal_round (p # ps) d =
     (case add_cards p (fst (deal d 1)) of
        Inl e \<Rightarrow> Inl e
      | Inr p' \<Rightarrow>
          (case deal_round ps (snd (deal d 1)) of
             Inl e \<Rightarrow> Inl e
           | Inr (ps', d') \<Rightarrow> Inr (p' # ps', d')))"

text \<open>
  \<^verbatim>\<open>PokerGame.start_new_round\<close>: the return value and the game afterwards. The shuffle
  of the new deck is the argument \<open>shuffle\<close>. A table left without a player raises
  \<^verbatim>\<open>ZeroDivisionError\<close> at the rotation of the dealer.
\<close>

definition start_new_round :: "(card list \<Rightarrow> card list) \<Rightarrow> game \<Rightarrow> py_error + (bool \<times> game)" where
  "start_new_round shuffle g =
     (let g1 = g\<lparr>deck := shuffle new_deck, community_cards := [], pot := 0,
                  game_current_bet := 0\<rparr>;
          g2 = g1\<lparr>players := map clear_hand (players g1)\<rparr>;
          g3 = g2\<lparr>players := filter (\<lambda>p. chips p > 0) (players g2)\<rparr>
      in if length (players g3) = 1 then Inr (False, g3)
         else if length (players g3) = 0 then Inl ZeroDivisionError
         else
           (let g4 = g3\<lparr>dealer_idx := (dealer_idx g3 + 1) mod length (players g3)\<rparr>
            in case deal_round (players g4) (deck g4) of
                 Inl e \<Rightarrow> Inl e
               | Inr (ps1, d1) \<Rightarrow>
                   (case deal_round ps1 d1 of
                      Inl e \<Rightarrow> Inl e
                    | Inr (ps2, d2) \<Rightarrow>
                        (let n = length ps2;
                             sb_idx = (dealer_idx g4 + 1) mod n;
                             bb_idx = (dealer_idx g4 + 2) mod n;
                             (sb, p_sb) = place_bet (ps2 ! sb_idx) (small_blind g4);
                             ps3 = ps2[sb_idx := p_sb];
                             (bb, p_bb) = place_bet (ps3 ! bb_idx) (big_blind g4);
                             ps4 = ps3[bb_idx := p_bb]
                         in Inr (True,
                              g4\<lparr>players := ps4, deck := d2, pot := pot g4 + (sb + bb),
                                 game_current_bet := big_blind g4,
                                 current_player_idx := (bb_idx + 1) mod n\<rparr>)))))"

subsection \<open>The settlement of the pot\<close>

text \<open>
  The players of the source are objects held in several lists at once; here a player is
  named by the seat, the position in \<open>players\<close>. \<open>add_chips\<close> is
  \<^verbatim>\<open>player.chips += amount\<close> on the player at seat \<open>i\<close>.
\<close>

definition add_chips :: "player list \<Rightarrow> nat \<Rightarrow> int \<Rightarrow> player list" where
  "add_chips ps i amount = ps[i := (ps ! i)\<lparr>chips := chips (ps ! i) + amount\<rparr>]"

text \<open>
  The end of \<^verbatim>\<open>determine_winners\<close>, from "Split pot among winners": the division, the
  loop over the winners, and the remainder for the first of them. The division raises
  \<^verbatim>\<open>ZeroDivisionError\<close> on an empty list of winners, which \<^verbatim>\<open>determine_winners\<close>
  never builds.
\<close>

definition split_pot :: "int \<Rightarrow> nat list \<Rightarrow> player list \<Rightarrow> py_error + player list" where
  "split_pot pot_total winners ps =
     (case winners of
        [] \<Rightarrow> Inl ZeroDivisionError
      | w0 # _ \<Rightarrow>
          (let split_amount = pot_total div int (length winners);
               remainder = pot_total mod int (length winners);
               ps1 = fold (\<lambda>winner qs. add_chips qs winner split_amount) winners ps
           in Inr (if remainder > 0 then add_chips ps1 w0 remainder else ps1)))"

text \<open>
  \<^verbatim>\<open>PokerGame.determine_winners\<close>, without what it prints. \<^verbatim>\<open>player_scores[0]\<close>
  raises \<^verbatim>\<open>IndexError\<close> when no player is active.
\<close>

definition determine_winners :: "game \<Rightarrow> py_error + game" where
  "determine_winners g =
     (let active_players = filter (\<lambda>i. is_active (players g ! i)) [0..<length (players g)]
      in case active_players of
           [winner] \<Rightarrow> Inr (g\<lparr>players := add_chips (players g) winner (pot g)\<rparr>)
         | _ \<Rightarrow>
             (case collect
                     (map (\<lambda>i. case evaluate_hand (hand (players g ! i) @ community_cards g) of
                                   Inl e \<Rightarrow> Inl e
                                 | Inr score \<Rightarrow> Inr (i, score))
                        active_players) of
                Inl e \<Rightarrow> Inl e
              | Inr player_scores \<Rightarrow>
                  (case sorted_reverse snd player_scores of
                     [] \<Rightarrow> Inl IndexError
                   | (p0, s0) # rest \<Rightarrow>
                       (let winners = p0 # map fst (takeWhile (\<lambda>(p, s). s = s0) rest)
                        in case split_pot (pot g) winners (players g) of
                             Inl e \<Rightarrow> Inl e
                           | Inr ps \<Rightarrow> Inr (g\<lparr>players := ps\<rparr>)))))"

section \<open>Example states\<close>

text \<open>
  Three seats before the flop, the dealer at seat 1: seat 2 has posted the small blind,
  seat 0 the big blind, and seat 1, an automated player left with five chips, is first to
  act with ten to call. The second state is the first after the call of seat 1.
\<close>

definition short_stack_game :: game where
  "short_stack_game =
     \<lparr>players =
        [\<lparr>chips = 990, hand = [Card 12 Clubs, Card 11 Clubs], is_active = True, is_ai = False,
          current_bet = 10\<rparr>,
         \<lparr>chips = 5, hand = [Card 5 Spades, Card 0 Hearts], is_active = True, is_ai = True,
          current_bet = 0\<rparr>,
         \<lparr>chips = 995, hand = [Card 7 Diamonds, Card 2 Spades], is_active = True, is_ai = True,
          current_bet = 5\<rparr>],
      deck = [], community_cards = [], pot = 15, game_current_bet = 10,
      dealer_idx = 1, current_player_idx = 1, small_blind = 5, big_blind = 10\<rparr>"

definition short_stack_game_after_call :: game where
  "short_stack_game_after_call =
     \<lparr>players =
        [\<lparr>chips = 990, hand = [Card 12 Clubs, Card 11 Clubs], is_active = True, is_ai = False,
          current_bet = 10\<rparr>,
         \<lparr>chips = 0, hand = [Card 5 Spades, Card 0 Hearts], is_active = True, is_ai = True,
          current_bet = 5\<rparr>,
         \<lparr>chips = 995, hand = [Card 7 Diamonds, Card 2 Spades], is_active = True, is_ai = True,
          current_bet = 5\<rparr>],
      deck = [], community_cards = [], pot = 20, game_current_bet = 10,
      dealer_idx = 1, current_player_idx = 1, small_blind = 5, big_blind = 10\<rparr>"

text \<open>
  After the flop, three fives for a player: once with five chips left, less than the big
  blind, and once with a thousand.
\<close>

definition trips_game :: game where
  "trips_game =
     \<lparr>players = [], deck = [],
      community_cards = [Card 3 Diamonds, Card 9 Clubs, Card 0 Spades],
      pot = 100, game_current_bet = 0,
      dealer_idx = 0, current_player_idx = 0, small_blind = 5, big_blind = 10\<rparr>"

definition trips_short_player :: player where
  "trips_short_player =
     \<lparr>chips = 5, hand = [Card 3 Spades, Card 3 Hearts], is_active = True, is_ai = True,
      current_bet = 0\<rparr>"

definition trips_deep_player :: player where
  "trips_deep_player =
     \<lparr>chips = 1000, hand = [Card 3 Spades, Card 3 Hearts], is_active = True, is_ai = True,
      current_bet = 0\<rparr>"

text \<open>Four seats with a thousand chips each, the dealer of the round before at seat 3.\<close>

definition four_seat_game :: game where
  "four_seat_game =
     \<lparr>players =
        replicate 4 \<lparr>chips = 1000, hand = [], is_active = True, is_ai = True, current_bet = 0\<rparr>,
      deck = [], community_cards = [], pot = 0, game_current_bet = 0,
      dealer_idx = 3, current_player_idx = 0, small_blind = 5, big_blind = 10\<rparr>"

text \<open>Three seats with stacks of 100, 50 and 200.\<close>

definition three_seats :: "player list" where
  "three_seats =
     [\<lparr>chips = 100, hand = [], is_active = True, is_ai = False, current_bet = 0\<rparr>,
      \<lparr>chips = 50, hand = [], is_active = False, is_ai = True, current_bet = 0\<rparr>,
      \<lparr>chips = 200, hand = [], is_active = True, is_ai = True, current_bet = 0\<rparr>]"

text \<open>Two seats with a thousand chips each, seat 0 to act, no bet yet on the street.\<close>

definition two_seat_game :: game where
  "two_seat_game =
     \<lparr>players =
        replicate 2 \<lparr>chips = 1000, hand = [], is_active = True, is_ai = True, current_bet = 0\<rparr>,
      deck = [], community_cards = [], pot = 30, game_current_bet = 0,
      dealer_idx = 1, current_player_idx = 0, small_blind = 5, big_blind = 10\<rparr>"

text \<open>
  Three seats before the flop: seat 0 opens the street, seat 1 has posted the small blind
  and seat 2 the big blind.
\<close>

definition three_seat_game :: game where
  "three_seat_game =
     \<lparr>players =
        [\<lparr>chips = 1000, hand = [], is_active = True, is_ai = False, current_bet = 0\<rparr>,
         \<lparr>chips = 995, hand = [], is_active = True, is_ai = True, current_bet = 5\<rparr>,
         \<lparr>chips = 990, hand = [], is_active = True, is_ai = True, current_bet = 10\<rparr>],
      deck = [], community_cards = [], pot = 15, game_current_bet = 10,
      dealer_idx = 0, current_player_idx = 0, small_blind = 5, big_blind = 10\<rparr>"

text \<open>Seven cards: two aces, three sevens, a three and a jack.\<close>

definition seven_cards :: "card list" where
  "seven_cards =
     [Card 12 Spades, Card 12 Hearts, Card 5 Diamonds, Card 5 Clubs, Card 5 Spades,
      Card 1 Hearts, Card 9 Diamonds]"

section \<open>Results on the deck and on bets\<close>

lemma place_bets_chips_nonneg:
  "0 \<le> chips p \<Longrightarrow> list_all (\<lambda>a. 0 \<le> a) as \<Longrightarrow> 0 \<le> chips (place_bets p as)"
proof (induction as arbitrary: p)
  case Nil
  then show ?case by simp
next
  case (Cons a as)
  have "0 \<le> chips (snd (place_bet p a))"
    using Cons.prems by (simp add: place_bet_def Let_def)
  moreover have "list_all (\<lambda>a. 0 \<le> a) as"
    using Cons.prems by simp
  ultimately show ?case
    using Cons.IH by simp
qed

text \<open>
  Claim C9. When the requested count is strictly greater than the number of cards that
  remain, \<open>deal\<close> returns the failure value \<^verbatim>\<open>None\<close> (never a list, whether truncated
  or not, and never a card) and leaves the deck as it was.
\<close>

theorem deal_insufficient_cards:
  "count > int (length cards) \<Longrightarrow>
     fst (deal cards count) = DealNone \<and> snd (deal cards count) = cards"
  by (simp add: deal_def)

theorem deal_insufficient_cards_witness:
  "(3::int) > int (length [Card 12 Spades, Card 0 Hearts]) \<and>
   fst (deal [Card 12 Spades, Card 0 Hearts] 3) = DealNone \<and>
   snd (deal [Card 12 Spades, Card 0 Hearts] 3) = [Card 12 Spades, Card 0 Hearts]"
  using deal_insufficient_cards [of "[Card 12 Spades, Card 0 Hearts]" 3] by simp

text \<open>
  Claim C10. For a player with a non-negative stack and a non-negative amount,
  \<open>place_bet\<close> returns \<open>min amount chips\<close>, takes exactly that from the stack and adds
  it to the player's bet of the street; and after any sequence of non-negative bets the
  stack is still non-negative.
\<close>

theorem place_bet_min_and_nonneg:
  "0 \<le> chips p \<Longrightarrow> 0 \<le> amount \<Longrightarrow> list_all (\<lambda>a. 0 \<le> a) as \<Longrightarrow>
     fst (place_bet p amount) = min amount (chips p) \<and>
     chips (snd (place_bet p amount)) = chips p - min amount (chips p) \<and>
     current_bet (snd (place_bet p amount)) = current_bet p + min amount (chips p) \<and>
     0 \<le> chips (snd (place_bet p amount)) \<and>
     0 \<le> chips (place_bets p as)"
  using place_bets_chips_nonneg [of p as]
  by (simp add: place_bet_def Let_def min_def)

theorem place_bet_min_and_nonneg_witness:
  "0 \<le> chips \<lparr>chips = 7, hand = [], is_active = True, is_ai = False, current_bet = 2\<rparr> \<and>
   (0::int) \<le> 10 \<and> list_all (\<lambda>a. (0::int) \<le> a) [3, 10, 1] \<and>
   fst (place_bet \<lparr>chips = 7, hand = [], is_active = True, is_ai = False, current_bet = 2\<rparr> 10) = 7 \<and>
   chips (snd (place_bet \<lparr>chips = 7, hand = [], is_active = True, is_ai = False, current_bet = 2\<rparr> 10)) = 0 \<and>
   current_bet (snd (place_bet \<lparr>chips = 7, hand = [], is_active = True, is_ai = False, current_bet = 2\<rparr> 10)) = 9 \<and>
   0 \<le> chips (place_bets \<lparr>chips = 7, hand = [], is_active = True, is_ai = False, current_bet = 2\<rparr> [3, 10, 1])"
  using place_bet_min_and_nonneg
    [of "\<lparr>chips = 7, hand = [], is_active = True, is_ai = False, current_bet = 2\<rparr>" 10 "[3, 10, 1]"]
  by simp


section \<open>Results on the hand evaluator\<close>

text \<open>
  Claim C1 says that the wheel, the ranks Ace, 2, 3, 4 and 5, is a straight whose high
  card is the 5. The test of the source under "Handle Ace as low" compares the ranks with
  the positions 0, 9, 10, 11 and 12, which are 2, J, Q, K and A; the positions of the
  wheel are 12, 0, 1, 2 and 3. So the wheel in mixed suits is scored as a high-card hand
  led by the Ace.
\<close>

theorem wheel_scored_as_high_card:
  "evaluate_hand
     [Card 12 Spades, Card 0 Hearts, Card 1 Diamonds, Card 2 Clubs, Card 3 Spades]
   = Inr (0, [12, 3, 2, 1, 0])"
  by code_simp

text \<open>The hand 2, J, Q, K, A, which is no straight, is the one scored as a straight.\<close>

lemma two_jack_queen_king_ace_scored_as_straight:
  "evaluate_hand
     [Card 0 Spades, Card 9 Hearts, Card 10 Diamonds, Card 11 Clubs, Card 12 Spades]
   = Inr (4, [12])"
  by code_simp


section \<open>Results on the automated decision\<close>

text \<open>
  Claim C6 gives the size of the raise of a hand of three of a kind or better after the
  flop as \<open>min stack (max big_blind (pot div 2))\<close>: never more than the stack. The
  source caps half the pot at the stack and then takes the maximum with the big blind, so
  a player whose stack is below the big blind announces a raise above the stack. Here the
  player holds three fives and 5 chips, the big blind is 10 and the pot 100: the decision
  is a raise of 10, the value of the claim is 5, and \<^verbatim>\<open>human_decision\<close> would not
  accept that raise from this stack.
\<close>

theorem ai_raise_above_stack:
  "community_cards trips_game \<noteq> [] \<and>
   evaluate_hand (hand trips_short_player @ community_cards trips_game) = Inr (3, [3, 9, 0]) \<and>
   chips trips_short_player = 5 \<and>
   ai_decision trips_game 0 trips_short_player 0 = Inr (Raise 10) \<and>
   min (chips trips_short_player) (max (big_blind trips_game) (pot trips_game div 2)) = 5 \<and>
   human_accepts trips_short_player 0 (Raise 10) = False"
  by code_simp

text \<open>
  Where the stack covers the big blind the source computes the value of the claim: after
  the flop, with a hand of category 3 or more and a draw below the double 0.7, the
  decision is a raise of \<open>min stack (max big_blind (pot div 2))\<close>.
\<close>

lemma ai_strong_raise_when_stack_covers_blind:
  assumes "evaluate_hand (hand p @ community_cards g) = Inr score"
    and "3 \<le> fst score" and "community_cards g \<noteq> []" and "r < double_0_7"
    and "big_blind g \<le> chips p"
  shows "ai_decision g r p amount_to_call =
           Inr (Raise (min (chips p) (max (big_blind g) (pot g div 2))))"
proof -
  have "max (big_blind g) (min (chips p) (pot g div 2)) =
        min (chips p) (max (big_blind g) (pot g div 2))"
    using assms(5) by (simp add: max_def min_def)
  then show ?thesis
    using assms(1-4) by (simp add: ai_decision_def Let_def)
qed

text \<open>The draw that is the double 0.7 itself is not below it: the player checks.\<close>

lemma ai_draw_at_double_0_7_does_not_raise:
  "ai_decision trips_game double_0_7 trips_deep_player 0 = Inr Check"
  by code_simp

section \<open>Results on a street of betting\<close>

text \<open>
  Claim C2 says that a call by a player whose stack is below the amount to call is
  rejected and changes nothing. \<^verbatim>\<open>human_decision\<close> does so: it offers no call to such
  a stack. \<^verbatim>\<open>ai_decision\<close> does not look at the stack before it answers "call", and
  the loop of the street pays any call through \<open>place_bet\<close>, which caps the payment.
  Here the automated player at seat 1 has 5 chips and 10 to call before the flop: the
  decision is a call, a decision that \<^verbatim>\<open>human_decision\<close> does not return for this
  stack; the street takes it, the pot goes from 15 to 20, the stack from 5 to 0, and the
  next seat is asked.
\<close>

theorem short_call_accepted_and_capped:
  "is_ai (players short_stack_game ! 1) \<and>
   chips (players short_stack_game ! 1) = 5 \<and>
   game_current_bet short_stack_game - current_bet (players short_stack_game ! 1) = 10 \<and>
   ai_decision short_stack_game 0 (players short_stack_game ! 1) 10 = Inr Call \<and>
   human_accepts (players short_stack_game ! 1) 10 Call = False \<and>
   betting_round short_stack_game [Call] =
     NeedAction short_stack_game_after_call 2 (Some 1) 1 \<and>
   pot short_stack_game = 15 \<and> pot short_stack_game_after_call = 20 \<and>
   chips (players short_stack_game_after_call ! 1) = 0"
  by code_simp

section \<open>Results on the start of a round\<close>

lemma deal_one:
  "d \<noteq> [] \<Longrightarrow> deal d 1 = (DealOne (hd d), tl d)"
  by (cases d) (simp_all add: deal_def py_take_def py_drop_def)

lemma deal_round_enough:
  "length ps \<le> length d \<Longrightarrow>
   \<exists>ps'. deal_round ps d = Inr (ps', drop (length ps) d) \<and> length ps' = length ps \<and>
         map chips ps' = map chips ps \<and> map current_bet ps' = map current_bet ps"
proof (induction ps arbitrary: d)
  case Nil
  then show ?case by simp
next
  case (Cons p ps)
  then obtain c d0 where d: "d = c # d0" by (cases d) auto
  then have "length ps \<le> length d0" using Cons.prems by simp
  from Cons.IH [OF this] obtain ps' where
    "deal_round ps d0 = Inr (ps', drop (length ps) d0)" "length ps' = length ps"
    "map chips ps' = map chips ps" "map current_bet ps' = map current_bet ps"
    by blast
  then show ?case
    by (simp add: d deal_one add_cards_def)
qed

text \<open>
  Claim C8. Four players who each hold at least the big blind, blinds of 5 and 10, and
  the dealer of the round at seat 0, which is the seat that the rotation at the start of
  \<^verbatim>\<open>start_new_round\<close> reaches from seat 3. The round starts, and after the blinds the
  pot is 15, the current bet is 10 and the first player to act is at seat 3. The shuffled
  deck is any list of 52 cards.
\<close>

theorem blinds_posted_dealer_seat_0:
  assumes "length (players g) = 4"
    and "\<forall>p \<in> set (players g). big_blind g \<le> chips p"
    and "small_blind g = 5" and "big_blind g = 10"
    and "(dealer_idx g + 1) mod 4 = 0"
    and "length (shuffle new_deck) = 52"
  shows "\<exists>g'. start_new_round shuffle g = Inr (True, g') \<and> dealer_idx g' = 0 \<and>
           pot g' = 15 \<and> game_current_bet g' = 10 \<and> current_player_idx g' = 3"
proof -
  define ps where "ps = map clear_hand (players g)"
  have keep: "filter (\<lambda>p. chips p > 0) ps = ps"
    using assms(2,4) by (auto simp: ps_def clear_hand_def filter_id_conv)
  have len: "length ps = 4"
    by (simp add: ps_def assms(1))
  have ch: "\<forall>p \<in> set ps. 10 \<le> chips p"
    using assms(2,4) by (auto simp: ps_def clear_hand_def)
  have cb: "\<forall>p \<in> set ps. current_bet p = 0"
    by (auto simp: ps_def clear_hand_def)
  obtain ps1 where r1: "deal_round ps (shuffle new_deck) = Inr (ps1, drop 4 (shuffle new_deck))"
    and l1: "length ps1 = 4" and c1: "map chips ps1 = map chips ps"
    and b1: "map current_bet ps1 = map current_bet ps"
    using deal_round_enough [of ps "shuffle new_deck"] len assms(6) by auto
  obtain ps2 where r2: "deal_round ps1 (drop 4 (shuffle new_deck)) = Inr (ps2, drop 4 (drop 4 (shuffle new_deck)))"
    and l2: "length ps2 = 4" and c2: "map chips ps2 = map chips ps1"
    and b2: "map current_bet ps2 = map current_bet ps1"
    using deal_round_enough [of ps1 "drop 4 (shuffle new_deck)"] l1 assms(6) by auto
  have chips2: "chips (ps2 ! i) = chips (ps ! i)" if "i < 4" for i
    using that c1 c2 l1 l2 len by (metis nth_map)
  have big: "10 \<le> chips (ps2 ! i)" if "i < 4" for i
    using chips2 [OF that] ch that len by (metis nth_mem)
  have s1: "\<not> 5 > chips (ps2 ! Suc 0)" and s2: "\<not> 10 > chips (ps2 ! Suc (Suc 0))"
    using big [of "Suc 0"] big [of "Suc (Suc 0)"] by simp_all
  have f: "filter ((\<lambda>p. 0 < chips p) \<circ> clear_hand) (players g) = players g"
    using assms(2,4) by (auto simp: clear_hand_def filter_id_conv)
  have m: "map clear_hand (players g) = ps"
    by (simp add: ps_def)
  show ?thesis
    using r1 r2 l2 s1 s2 assms(1,3,4,5)
    by (simp add: start_new_round_def Let_def m keep f len place_bet_def split_def)
qed

theorem blinds_posted_dealer_seat_0_witness:
  "length (players four_seat_game) = 4 \<and>
   list_all (\<lambda>p. big_blind four_seat_game \<le> chips p) (players four_seat_game) \<and>
   small_blind four_seat_game = 5 \<and> big_blind four_seat_game = 10 \<and>
   (dealer_idx four_seat_game + 1) mod 4 = 0 \<and> length (rev new_deck) = 52 \<and>
   (case start_new_round rev four_seat_game of
      Inl e \<Rightarrow> False
    | Inr (started, g') \<Rightarrow>
        started \<and> dealer_idx g' = 0 \<and> pot g' = 15 \<and> game_current_bet g' = 10 \<and>
        current_player_idx g' = 3)"
proof -
  have h: "length (players four_seat_game) = 4"
    "\<forall>p \<in> set (players four_seat_game). big_blind four_seat_game \<le> chips p"
    "small_blind four_seat_game = 5" "big_blind four_seat_game = 10"
    "(dealer_idx four_seat_game + 1) mod 4 = 0"
    by (simp_all add: four_seat_game_def)
  have d: "length (rev new_deck) = 52"
    by (simp add: new_deck_def SUITS_def RANKS_def)
  from blinds_posted_dealer_seat_0 [where g = four_seat_game and shuffle = rev, OF h d] obtain g' where
    "start_new_round rev four_seat_game = Inr (True, g')" "dealer_idx g' = 0"
    "pot g' = 15" "game_current_bet g' = 10" "current_player_idx g' = 3"
    by blast
  with h d show ?thesis
    by (simp add: list_all_iff)
qed

section \<open>Results on the settlement of the pot\<close>

lemma length_add_chips [simp]: "length (add_chips ps i a) = length ps"
  by (simp add: add_chips_def)

lemma sum_list_update_int:
  "i < length xs \<Longrightarrow> sum_list (xs[i := x]) = sum_list xs + x - (xs ! i :: int)"
proof (induction xs arbitrary: i)
  case Nil
  then show ?case by simp
next
  case (Cons y ys)
  then show ?case by (cases i) simp_all
qed

lemma sum_chips_add_chips:
  "i < length ps \<Longrightarrow> sum_list (map chips (add_chips ps i a)) = sum_list (map chips ps) + a"
  by (simp add: add_chips_def map_update sum_list_update_int)

lemma nth_add_chips_other: "j \<noteq> i \<Longrightarrow> add_chips ps i a ! j = ps ! j"
  by (simp add: add_chips_def)

lemma chips_add_chips_same:
  "i < length ps \<Longrightarrow> chips (add_chips ps i a ! i) = chips (ps ! i) + a"
  by (simp add: add_chips_def)

lemma length_fold_add_chips [simp]:
  "length (fold (\<lambda>w qs. add_chips qs w a) ws ps) = length ps"
  by (induction ws arbitrary: ps) simp_all

lemma sum_chips_fold_add_chips:
  "\<forall>w \<in> set ws. w < length ps \<Longrightarrow>
   sum_list (map chips (fold (\<lambda>w qs. add_chips qs w a) ws ps)) =
     sum_list (map chips ps) + a * int (length ws)"
  by (induction ws arbitrary: ps) (simp_all add: sum_chips_add_chips algebra_simps)

lemma nth_fold_add_chips_other:
  "i \<notin> set ws \<Longrightarrow> fold (\<lambda>w qs. add_chips qs w a) ws ps ! i = ps ! i"
  by (induction ws arbitrary: ps) (simp_all add: nth_add_chips_other)

lemma chips_fold_add_chips_winner:
  "distinct ws \<Longrightarrow> i \<in> set ws \<Longrightarrow> i < length ps \<Longrightarrow>
   chips (fold (\<lambda>w qs. add_chips qs w a) ws ps ! i) = chips (ps ! i) + a"
proof (induction ws arbitrary: ps)
  case Nil
  then show ?case by simp
next
  case (Cons w ws)
  show ?case
  proof (cases "i = w")
    case True
    then have "i \<notin> set ws" using Cons.prems by simp
    then show ?thesis
      using True Cons.prems by (simp add: nth_fold_add_chips_other chips_add_chips_same)
  next
    case False
    then show ?thesis
      using Cons by (simp add: nth_add_chips_other)
  qed
qed

text \<open>
  Claim C3. For a pot \<open>P \<ge> 0\<close> and a non-empty list of \<open>W\<close> winners, distinct seats of
  the table, the settlement returns; the first winner of the list receives
  \<open>P div W + P mod W\<close>, every other winner \<open>P div W\<close>, no other seat changes, and the
  chips of the table grow by \<open>P\<close> exactly.
\<close>

theorem split_pot_distributes_pot:
  assumes "0 \<le> P" and "winners \<noteq> []" and "distinct winners"
    and "\<forall>w \<in> set winners. w < length ps"
  shows "\<exists>ps'. split_pot P winners ps = Inr ps' \<and> length ps' = length ps \<and>
     chips (ps' ! hd winners) =
       chips (ps ! hd winners) + P div int (length winners) + P mod int (length winners) \<and>
     (\<forall>w \<in> set (tl winners). chips (ps' ! w) = chips (ps ! w) + P div int (length winners)) \<and>
     (\<forall>i < length ps. i \<notin> set winners \<longrightarrow> ps' ! i = ps ! i) \<and>
     sum_list (map chips ps') = sum_list (map chips ps) + P"
proof -
  obtain w0 ws where w: "winners = w0 # ws"
    using assms(2) by (cases winners) auto
  define a where "a = P div int (length winners)"
  define r where "r = P mod int (length winners)"
  define ps1 where "ps1 = fold (\<lambda>w qs. add_chips qs w a) winners ps"
  define ps' where "ps' = (if r > 0 then add_chips ps1 w0 r else ps1)"
  have res: "split_pot P winners ps = Inr ps'"
    by (simp add: split_pot_def w Let_def ps'_def ps1_def a_def r_def)
  have r0: "0 \<le> r"
    by (simp add: r_def w)
  have len1: "length ps1 = length ps"
    by (simp add: ps1_def)
  have len: "length ps' = length ps"
    by (simp add: ps'_def len1)
  have w0_in: "w0 < length ps" "w0 \<notin> set ws" "distinct ws"
    using assms(3,4) w by auto
  have c1: "chips (ps1 ! w0) = chips (ps ! w0) + a"
    unfolding ps1_def using assms(3,4) w
    by (intro chips_fold_add_chips_winner) auto
  have first: "chips (ps' ! w0) = chips (ps ! w0) + a + r"
    using c1 r0 w0_in len1 by (auto simp: ps'_def chips_add_chips_same)
  have others: "chips (ps' ! x) = chips (ps ! x) + a" if "x \<in> set ws" for x
  proof -
    have "x \<noteq> w0" using that w0_in by auto
    then have "ps' ! x = ps1 ! x"
      by (simp add: ps'_def nth_add_chips_other)
    moreover have "chips (ps1 ! x) = chips (ps ! x) + a"
      unfolding ps1_def using assms(3,4) w that
      by (intro chips_fold_add_chips_winner) auto
    ultimately show ?thesis by simp
  qed
  have rest: "ps' ! i = ps ! i" if "i \<notin> set winners" for i
  proof -
    have "i \<noteq> w0" using that w by auto
    then have "ps' ! i = ps1 ! i"
      by (simp add: ps'_def nth_add_chips_other)
    then show ?thesis
      using that by (simp add: ps1_def nth_fold_add_chips_other)
  qed
  have s1: "sum_list (map chips ps1) = sum_list (map chips ps) + a * int (length winners)"
    unfolding ps1_def using assms(4) by (rule sum_chips_fold_add_chips)
  have s2: "sum_list (map chips ps') = sum_list (map chips ps1) + r"
    using r0 w0_in len1 by (auto simp: ps'_def sum_chips_add_chips)
  have "a * int (length winners) + r = P"
    by (simp add: a_def r_def)
  with s1 s2 have total: "sum_list (map chips ps') = sum_list (map chips ps) + P"
    by simp
  show ?thesis
    using res len first others rest total
    by (auto simp: w a_def r_def)
qed

theorem split_pot_distributes_pot_witness:
  "(0::int) \<le> 17 \<and> [2, 0::nat] \<noteq> [] \<and> distinct [2, 0::nat] \<and>
   list_all (\<lambda>w. w < length three_seats) [2, 0] \<and>
   (case split_pot 17 [2, 0] three_seats of
      Inl e \<Rightarrow> False
    | Inr ps' \<Rightarrow> map chips ps' = [108, 50, 209])"
  using split_pot_distributes_pot [of 17 "[2, 0]" three_seats]
  by (simp add: split_pot_def three_seats_def add_chips_def)


section \<open>Results on the length of a street\<close>

lemma skip_inactive_Some:
  assumes "idx < length ps" "skip_inactive ps idx f = Some i"
  shows "\<exists>k<f. i = (idx + k) mod length ps \<and> is_active (ps ! i) \<and>
           (\<forall>k'<k. \<not> is_active (ps ! ((idx + k') mod length ps)))"
  using assms
proof (induction f arbitrary: idx)
  case 0
  then show ?case by simp
next
  case (Suc f)
  show ?case
  proof (cases "is_active (ps ! idx)")
    case True
    then have "i = idx" using Suc.prems by simp
    then show ?thesis using True Suc.prems(1) by (intro exI[of _ 0]) simp
  next
    case False
    let ?idx' = "(idx + 1) mod length ps"
    have "?idx' < length ps" using Suc.prems(1) by (intro mod_less_divisor) auto
    moreover have "skip_inactive ps ?idx' f = Some i" using False Suc.prems(2) by simp
    ultimately obtain k where k: "k < f" "i = (?idx' + k) mod length ps" "is_active (ps ! i)"
      "\<forall>k'<k. \<not> is_active (ps ! ((?idx' + k') mod length ps))"
      using Suc.IH by blast
    have shift: "(?idx' + m) mod length ps = (idx + Suc m) mod length ps" for m
      by (simp add: mod_simps)
    have "\<not> is_active (ps ! ((idx + k') mod length ps))" if "k' < Suc k" for k'
    proof (cases k')
      case 0
      then show ?thesis using False Suc.prems(1) by simp
    next
      case (Suc m)
      then have "m < k" using that by simp
      then have "\<not> is_active (ps ! ((?idx' + m) mod length ps))" using k(4) by blast
      then show ?thesis unfolding shift Suc .
    qed
    moreover have "i = (idx + Suc k) mod length ps" using k(2) shift by simp
    ultimately show ?thesis using k(1,3) by (intro exI[of _ "Suc k"]) simp
  qed
qed

lemma skip_inactive_None:
  assumes "idx < length ps" "skip_inactive ps idx f = None"
  shows "\<forall>k<f. \<not> is_active (ps ! ((idx + k) mod length ps))"
  using assms
proof (induction f arbitrary: idx)
  case 0
  then show ?case by simp
next
  case (Suc f)
  have inactive: "\<not> is_active (ps ! idx)"
    using Suc.prems(2) by (auto split: if_splits)
  let ?idx' = "(idx + 1) mod length ps"
  have "?idx' < length ps" using Suc.prems(1) by (intro mod_less_divisor) auto
  moreover have "skip_inactive ps ?idx' f = None" using inactive Suc.prems(2) by simp
  ultimately have ih: "\<forall>k<f. \<not> is_active (ps ! ((?idx' + k) mod length ps))"
    using Suc.IH by blast
  have shift: "(?idx' + m) mod length ps = (idx + Suc m) mod length ps" for m
    by (simp add: mod_simps)
  show ?case
  proof (intro allI impI)
    fix k assume "k < Suc f"
    show "\<not> is_active (ps ! ((idx + k) mod length ps))"
    proof (cases k)
      case 0
      then show ?thesis using inactive Suc.prems(1) by simp
    next
      case (Suc m)
      then have "m < f" using \<open>k < Suc f\<close> by simp
      then have "\<not> is_active (ps ! ((?idx' + m) mod length ps))" using ih by blast
      then show ?thesis unfolding shift Suc .
    qed
  qed
qed

lemma seats_nth:
  "k < n \<Longrightarrow> rotate idx [0..<n] ! k = (idx + k) mod n"
  by (simp add: nth_rotate)

lemma length_active_seats:
  "length (active_seats ps idx) = length (filter is_active ps)"
proof -
  let ?A = "\<lambda>j. is_active (ps ! j)"
  let ?m = "idx mod length [0..<length ps]"
  have "length (filter ?A [0..<length ps]) = length (filter is_active (map (\<lambda>j. ps ! j) [0..<length ps]))"
    by (simp add: filter_map comp_def)
  then have a: "length (filter ?A [0..<length ps]) = length (filter is_active ps)"
    by (simp add: map_nth)
  have "length (filter ?A (rotate idx [0..<length ps])) =
        length (filter ?A (drop ?m [0..<length ps])) + length (filter ?A (take ?m [0..<length ps]))"
    by (subst rotate_drop_take) simp
  also have "\<dots> = length (filter ?A (take ?m [0..<length ps] @ drop ?m [0..<length ps]))"
    by simp
  also have "\<dots> = length (filter ?A [0..<length ps])"
    by (simp only: append_take_drop_id)
  finally show ?thesis
    using a by (simp add: active_seats_def)
qed

lemma distinct_active_seats: "distinct (active_seats ps idx)"
  by (simp add: active_seats_def)

lemma set_active_seats:
  "set (active_seats ps idx) = {j. j < length ps \<and> is_active (ps ! j)}"
  by (auto simp: active_seats_def)

lemma active_seats_cong:
  "map is_active (ps' :: player list) = map is_active (ps :: player list) \<Longrightarrow>
   active_seats ps' idx = active_seats ps idx"
proof -
  assume m: "map is_active ps' = map is_active ps"
  then have len: "length ps' = length ps"
    using map_eq_imp_length_eq by blast
  have "is_active (ps' ! j) = is_active (ps ! j)" if "j < length ps" for j
    using m that len by (metis nth_map)
  then show ?thesis
    unfolding active_seats_def len
    by (intro filter_cong) auto
qed

lemma active_seats_step:
  assumes "idx < length ps" "j < length ps" "is_active (ps ! j)"
  shows "\<exists>i rest. skip_inactive ps idx (length ps) = Some i \<and> i < length ps \<and>
           active_seats ps idx = i # rest \<and>
           active_seats ps ((i + 1) mod length ps) = rest @ [i]"
proof -
  let ?n = "length ps"
  let ?S = "rotate idx [0..<?n]"
  let ?A = "\<lambda>j. is_active (ps ! j)"
  have npos: "0 < ?n" using assms(1) by auto
  have "skip_inactive ps idx ?n \<noteq> None"
  proof
    assume "skip_inactive ps idx ?n = None"
    then have none: "\<forall>k<?n. \<not> ?A ((idx + k) mod ?n)"
      using skip_inactive_None [OF assms(1)] by blast
    have "j \<in> set ?S" using assms(2) by simp
    then obtain k where "k < ?n" "?S ! k = j"
      by (metis in_set_conv_nth length_rotate length_upt minus_nat.diff_0)
    then have "j = (idx + k) mod ?n" by (simp add: seats_nth)
    then show False using none \<open>k < ?n\<close> assms(3) by blast
  qed
  then obtain i where i: "skip_inactive ps idx ?n = Some i" by blast
  from skip_inactive_Some [OF assms(1) i] obtain k where
    k: "k < ?n" "i = (idx + k) mod ?n" "?A i" "\<forall>k'<k. \<not> ?A ((idx + k') mod ?n)"
    by blast
  define pre where "pre = take k ?S"
  define post where "post = drop (Suc k) ?S"
  have Sk: "?S ! k = i" using k(1,2) by (simp add: seats_nth)
  have S: "?S = pre @ i # post"
    using id_take_nth_drop [of k ?S] k(1) Sk by (simp add: pre_def post_def)
  have lenpre: "length pre = k" using k(1) by (simp add: pre_def)
  have "\<not> ?A x" if "x \<in> set pre" for x
  proof -
    from that obtain k' where "k' < k" "pre ! k' = x"
      using lenpre by (metis in_set_conv_nth)
    then have "x = (idx + k') mod ?n"
      using k(1) by (simp add: pre_def seats_nth)
    then show ?thesis using k(4) \<open>k' < k\<close> by blast
  qed
  then have fpre: "filter ?A pre = []" by (simp add: filter_empty_conv)
  have a1: "active_seats ps idx = i # filter ?A post"
    using fpre k(3) by (simp add: active_seats_def S)
  have "rotate ((i + 1) mod ?n) [0..<?n] = rotate (i + 1) [0..<?n]"
    using rotate_conv_mod [of "i + 1" "[0..<?n]"] by simp
  also have "(i + 1) mod ?n = (idx + (k + 1)) mod ?n"
    using k(2) by (simp add: mod_simps)
  then have "rotate (i + 1) [0..<?n] = rotate (idx + (k + 1)) [0..<?n]"
    using rotate_conv_mod [of "i + 1" "[0..<?n]"] rotate_conv_mod [of "idx + (k + 1)" "[0..<?n]"]
    by simp
  also have "\<dots> = rotate (k + 1) ?S"
    by (simp add: rotate_rotate add.commute)
  also have "\<dots> = rotate (length (pre @ [i])) ((pre @ [i]) @ post)"
    using S lenpre by simp
  also have "\<dots> = post @ pre @ [i]"
    by (subst rotate_append) simp
  finally have "active_seats ps ((i + 1) mod ?n) = filter ?A post @ [i]"
    using fpre k(3) by (simp add: active_seats_def)
  moreover have "i < ?n" using k(2) npos by simp
  ultimately show ?thesis using i a1 by blast
qed


lemma map_is_active_update:
  "is_active p' = is_active ((ps :: player list) ! i) \<Longrightarrow> map is_active (ps[i := p']) = map is_active ps"
  by (cases "i < length ps") (simp_all add: map_update list_update_same_conv list_update_beyond)

lemma process_action_no_fold:
  assumes "a \<noteq> Fold"
  shows "map is_active (players (fst (process_action g i lr a))) = map is_active (players g)"
    and "snd (snd (process_action g i lr a)) = False"
    and "fst (snd (process_action g i lr a)) = (if is_raise a then Some i else lr)"
  using assms
  by (cases a; simp add: process_action_def place_bet_def Let_def split_def map_is_active_update)+

lemma count_active_cong:
  assumes "map is_active (ps' :: player list) = map is_active (ps :: player list)"
  shows "length (filter is_active ps') = length (filter is_active ps)"
  using length_active_seats [of ps' 0] length_active_seats [of ps 0]
    active_seats_cong [OF assms, of 0] by simp

lemma betting_loop_ends:
  assumes "idx < length (players g)"
    and "l \<in> set (active_seats (players g) idx)"
    and "Fold \<notin> set acts"
    and "length (takeWhile (\<lambda>j. j \<noteq> l) (active_seats (players g) idx)) +
           length (filter is_raise acts) * (length (filter is_active (players g)) - 1)
         \<le> length acts"
  shows "\<exists>g' t'. betting_loop g idx (Some l) t acts = Finished True g' t' \<and>
           t' \<le> t + length (takeWhile (\<lambda>j. j \<noteq> l) (active_seats (players g) idx)) +
                  length (filter is_raise acts) * (length (filter is_active (players g)) - 1)"
  using assms
proof (induction acts arbitrary: g idx l t)
  case Nil
  have l: "l < length (players g)" "is_active (players g ! l)"
    using Nil.prems(2) by (auto simp: set_active_seats)
  from active_seats_step [OF Nil.prems(1) l] obtain i rest where
    skip: "skip_inactive (players g) idx (length (players g)) = Some i"
    and as: "active_seats (players g) idx = i # rest"
    by blast
  have "i = l"
    using Nil.prems(4) as by (auto split: if_splits)
  then show ?case
    using skip by simp
next
  case (Cons a acts)
  let ?n = "length (players g)"
  let ?N = "length (filter is_active (players g))"
  have l: "l < ?n" "is_active (players g ! l)"
    using Cons.prems(2) by (auto simp: set_active_seats)
  from active_seats_step [OF Cons.prems(1) l] obtain i rest where
    skip: "skip_inactive (players g) idx ?n = Some i"
    and i: "i < ?n"
    and as: "active_seats (players g) idx = i # rest"
    and as': "active_seats (players g) ((i + 1) mod ?n) = rest @ [i]"
    by blast
  show ?case
  proof (cases "i = l")
    case True
    then show ?thesis using skip by simp
  next
    case False
    have nofold: "a \<noteq> Fold" "Fold \<notin> set acts"
      using Cons.prems(3) by auto
    let ?g1 = "g\<lparr>current_player_idx := i\<rparr>"
    obtain g' lr' stopped where pa: "process_action ?g1 i (Some l) a = (g', lr', stopped)"
      by (cases "process_action ?g1 i (Some l) a") auto
    have pat: "map is_active (players g') = map is_active (players g)"
      using process_action_no_fold(1) [OF nofold(1), of ?g1 i "Some l"] pa by simp
    have st: "stopped = False"
      using process_action_no_fold(2) [OF nofold(1), of ?g1 i "Some l"] pa by simp
    have lr: "lr' = (if is_raise a then Some i else Some l)"
      using process_action_no_fold(3) [OF nofold(1), of ?g1 i "Some l"] pa by simp
    have len: "length (players g') = ?n"
      using pat map_eq_imp_length_eq by blast
    have N': "length (filter is_active (players g')) = ?N"
      using count_active_cong [OF pat] .
    have seats': "active_seats (players g') ((i + 1) mod ?n) = rest @ [i]"
      using as' active_seats_cong [OF pat] by simp
    have "0 < ?n" using i by auto
    then have idx': "(i + 1) mod ?n < length (players g')"
      by (simp add: len)
    have step: "betting_loop g idx (Some l) t (a # acts) =
                betting_loop g' ((i + 1) mod ?n) lr' (t + 1) acts"
      using skip False pa st len by simp
    have d: "length (takeWhile (\<lambda>j. j \<noteq> l) (active_seats (players g) idx)) =
             Suc (length (takeWhile (\<lambda>j. j \<noteq> l) rest))"
      using as False by simp
    have dist: "i \<notin> set rest"
      using distinct_active_seats [of "players g" idx] as by simp
    have Nrest: "?N = Suc (length rest)"
      using length_active_seats [of "players g" idx] as by simp
    show ?thesis
    proof (cases "is_raise a")
      case True
      have lr'': "lr' = Some i" using lr True by simp
      have mem: "i \<in> set (active_seats (players g') ((i + 1) mod ?n))"
        using seats' by simp
      have tw: "takeWhile (\<lambda>j. j \<noteq> i) (rest @ [i]) = rest"
        using dist by (subst takeWhile_append2) auto
      have d': "length (takeWhile (\<lambda>j. j \<noteq> i) (active_seats (players g') ((i + 1) mod ?n))) = ?N - 1"
        using seats' tw Nrest by simp
      have R: "length (filter is_raise (a # acts)) = Suc (length (filter is_raise acts))"
        using True by simp
      have enough: "length (takeWhile (\<lambda>j. j \<noteq> i) (active_seats (players g') ((i + 1) mod ?n))) +
            length (filter is_raise acts) * (length (filter is_active (players g')) - 1)
            \<le> length acts"
        using Cons.prems(4) d d' R N' by simp
      from Cons.IH [OF idx' mem nofold(2) enough, of "t + 1"] obtain g'' t'' where
        fin: "betting_loop g' ((i + 1) mod ?n) (Some i) (t + 1) acts = Finished True g'' t''"
        and bound: "t'' \<le> t + 1 + length (takeWhile (\<lambda>j. j \<noteq> i) (active_seats (players g') ((i + 1) mod ?n))) +
            length (filter is_raise acts) * (length (filter is_active (players g')) - 1)"
        by blast
      have "t'' \<le> t + length (takeWhile (\<lambda>j. j \<noteq> l) (active_seats (players g) idx)) +
                  length (filter is_raise (a # acts)) * (?N - 1)"
        using bound d d' R N' by simp
      then show ?thesis
        using step fin lr'' by simp
    next
      case False
      have lr'': "lr' = Some l" using lr False by simp
      have lrest: "l \<in> set rest"
        using Cons.prems(2) as \<open>i \<noteq> l\<close> by auto
      have mem: "l \<in> set (active_seats (players g') ((i + 1) mod ?n))"
        using seats' lrest by simp
      have tw: "takeWhile (\<lambda>j. j \<noteq> l) (rest @ [i]) = takeWhile (\<lambda>j. j \<noteq> l) rest"
        by (rule takeWhile_append1 [OF lrest]) simp
      have d': "length (takeWhile (\<lambda>j. j \<noteq> l) (active_seats (players g') ((i + 1) mod ?n))) =
                length (takeWhile (\<lambda>j. j \<noteq> l) rest)"
        using seats' tw by simp
      have R: "length (filter is_raise (a # acts)) = length (filter is_raise acts)"
        using False by simp
      have enough: "length (takeWhile (\<lambda>j. j \<noteq> l) (active_seats (players g') ((i + 1) mod ?n))) +
            length (filter is_raise acts) * (length (filter is_active (players g')) - 1)
            \<le> length acts"
        using Cons.prems(4) d d' R N' by simp
      from Cons.IH [OF idx' mem nofold(2) enough, of "t + 1"] obtain g'' t'' where
        fin: "betting_loop g' ((i + 1) mod ?n) (Some l) (t + 1) acts = Finished True g'' t''"
        and bound: "t'' \<le> t + 1 + length (takeWhile (\<lambda>j. j \<noteq> l) (active_seats (players g') ((i + 1) mod ?n))) +
            length (filter is_raise acts) * (length (filter is_active (players g')) - 1)"
        by blast
      have "t'' \<le> t + length (takeWhile (\<lambda>j. j \<noteq> l) (active_seats (players g) idx)) +
                  length (filter is_raise (a # acts)) * (?N - 1)"
        using bound d d' R N' by simp
      then show ?thesis
        using step fin lr'' by simp
    qed
  qed
qed


text \<open>
  Claim C7 bounds a street by twice the number of active players for every sequence of
  legal decisions without a fold. Each raise moves the last raiser and sends the action
  once more around the table, and nothing bounds the raises: two players who raise by 1
  in turn, each raise one that \<^verbatim>\<open>human_decision\<close> accepts, have taken five turns, more
  than twice two, and the street is still waiting for a decision.
\<close>

theorem street_of_raises_counterexample:
  "length (filter is_active (players two_seat_game)) = 2 \<and>
   Fold \<notin> set [Raise 1, Raise 1, Raise 1, Raise 1, Raise 1] \<and>
   accepted_run two_seat_game 0 None [Raise 1, Raise 1, Raise 1, Raise 1, Raise 1] \<and>
   \<not> street_finished (betting_round two_seat_game [Raise 1, Raise 1, Raise 1, Raise 1, Raise 1]) \<and>
   turns_taken (betting_round two_seat_game [Raise 1, Raise 1, Raise 1, Raise 1, Raise 1]) = Some 5"
  by code_simp

text \<open>
  Claim C7 as amended. With at least two active players, a sequence of decisions without
  a fold and with at most one raise, long enough to serve twice the number of active
  players, ends the street: \<^verbatim>\<open>betting_round\<close> returns \<^verbatim>\<open>True\<close> after fewer turns than
  twice the number of active players.
\<close>

theorem street_ends_within_two_rounds:
  assumes "2 \<le> length (filter is_active (players g))"
    and "current_player_idx g < length (players g)"
    and "Fold \<notin> set acts"
    and "length (filter is_raise acts) \<le> 1"
    and "2 * length (filter is_active (players g)) \<le> length acts"
  shows "\<exists>g' t. betting_round g acts = Finished True g' t \<and>
           t < 2 * length (filter is_active (players g))"
proof -
  let ?n = "length (players g)"
  let ?N = "length (filter is_active (players g))"
  let ?idx = "current_player_idx g"
  have "filter is_active (players g) \<noteq> []"
    using assms(1) by auto
  then obtain p where "p \<in> set (players g)" "is_active p"
    by (metis filter_False)
  then obtain j where j: "j < ?n" "is_active (players g ! j)"
    by (metis in_set_conv_nth)
  from active_seats_step [OF assms(2) j] obtain i rest where
    skip: "skip_inactive (players g) ?idx ?n = Some i"
    and i: "i < ?n"
    and as: "active_seats (players g) ?idx = i # rest"
    and as': "active_seats (players g) ((i + 1) mod ?n) = rest @ [i]"
    by blast
  obtain a acts' where acts: "acts = a # acts'"
    using assms(1,5) by (cases acts) auto
  have nofold: "a \<noteq> Fold" "Fold \<notin> set acts'"
    using assms(3) acts by auto
  let ?g1 = "g\<lparr>current_player_idx := i\<rparr>"
  obtain g' lr' stopped where pa: "process_action ?g1 i (Some i) a = (g', lr', stopped)"
    by (cases "process_action ?g1 i (Some i) a") auto
  have pat: "map is_active (players g') = map is_active (players g)"
    using process_action_no_fold(1) [OF nofold(1), of ?g1 i "Some i"] pa by simp
  have st: "stopped = False"
    using process_action_no_fold(2) [OF nofold(1), of ?g1 i "Some i"] pa by simp
  have lr: "lr' = Some i"
    using process_action_no_fold(3) [OF nofold(1), of ?g1 i "Some i"] pa by simp
  have len: "length (players g') = ?n"
    using pat map_eq_imp_length_eq by blast
  have N': "length (filter is_active (players g')) = ?N"
    using count_active_cong [OF pat] .
  have seats': "active_seats (players g') ((i + 1) mod ?n) = rest @ [i]"
    using as' active_seats_cong [OF pat] by simp
  have "0 < ?n" using i by auto
  then have idx': "(i + 1) mod ?n < length (players g')"
    by (simp add: len)
  have start: "betting_round g acts = betting_loop g' ((i + 1) mod ?n) (Some i) 1 acts'"
    using assms(1,2) skip pa st lr len by (simp add: betting_round_def acts)
  have dist: "i \<notin> set rest"
    using distinct_active_seats [of "players g" ?idx] as by simp
  have Nrest: "?N = Suc (length rest)"
    using length_active_seats [of "players g" ?idx] as by simp
  have mem: "i \<in> set (active_seats (players g') ((i + 1) mod ?n))"
    using seats' by simp
  have tw: "takeWhile (\<lambda>j. j \<noteq> i) (rest @ [i]) = rest"
    using dist by (subst takeWhile_append2) auto
  have d': "length (takeWhile (\<lambda>j. j \<noteq> i) (active_seats (players g') ((i + 1) mod ?n))) = ?N - 1"
    using seats' tw Nrest by simp
  have "length (filter is_raise acts') \<le> 1"
    using assms(4) acts by (auto split: if_splits)
  then have R: "length (filter is_raise acts') * (?N - 1) \<le> ?N - 1"
    using mult_le_mono1 [of "length (filter is_raise acts')" 1 "?N - 1"] by simp
  have la: "length acts = Suc (length acts')"
    by (simp add: acts)
  have e1: "(?N - 1) + length (filter is_raise acts') * (?N - 1) \<le> length acts'"
    using assms(1,5) la R by linarith
  have enough: "length (takeWhile (\<lambda>j. j \<noteq> i) (active_seats (players g') ((i + 1) mod ?n))) +
        length (filter is_raise acts') * (length (filter is_active (players g')) - 1)
        \<le> length acts'"
    unfolding d' N' by (rule e1)
  from betting_loop_ends [OF idx' mem nofold(2) enough, of 1] obtain g'' t'' where
    fin: "betting_loop g' ((i + 1) mod ?n) (Some i) 1 acts' = Finished True g'' t''"
    and bound: "t'' \<le> 1 + length (takeWhile (\<lambda>j. j \<noteq> i) (active_seats (players g') ((i + 1) mod ?n))) +
        length (filter is_raise acts') * (length (filter is_active (players g')) - 1)"
    by blast
  have "t'' \<le> 1 + (?N - 1) + length (filter is_raise acts') * (?N - 1)"
    using bound unfolding d' N' .
  then have "t'' < 2 * ?N"
    using R assms(1) by linarith
  then show ?thesis
    using start fin by simp
qed

theorem street_ends_within_two_rounds_witness:
  "2 \<le> length (filter is_active (players two_seat_game)) \<and>
   current_player_idx two_seat_game < length (players two_seat_game) \<and>
   Fold \<notin> set [Check, Raise 5, Call, Check] \<and>
   length (filter is_raise [Check, Raise 5, Call, Check]) \<le> 1 \<and>
   2 * length (filter is_active (players two_seat_game)) \<le> length [Check, Raise 5, Call, Check] \<and>
   street_finished (betting_round two_seat_game [Check, Raise 5, Call, Check]) \<and>
   turns_taken (betting_round two_seat_game [Check, Raise 5, Call, Check]) = Some 3"
proof -
  have h: "2 \<le> length (filter is_active (players two_seat_game))"
    "current_player_idx two_seat_game < length (players two_seat_game)"
    "Fold \<notin> set [Check, Raise 5, Call, Check]"
    "length (filter is_raise [Check, Raise 5, Call, Check]) \<le> 1"
    "2 * length (filter is_active (players two_seat_game)) \<le> length [Check, Raise 5, Call, Check]"
    by (simp_all add: two_seat_game_def)
  have t: "turns_taken (betting_round two_seat_game [Check, Raise 5, Call, Check]) = Some 3"
    by code_simp
  from street_ends_within_two_rounds [OF h] obtain g' t' where
    "betting_round two_seat_game [Check, Raise 5, Call, Check] = Finished True g' t'"
    by blast
  then have "street_finished (betting_round two_seat_game [Check, Raise 5, Call, Check])"
    by simp
  with h t show ?thesis by simp
qed

text \<open>
  A fold by the seat that opens the street is outside the amended claim. The loop has
  marked the opener as the last raiser before the fold, and it ends only when it meets
  the last raiser among the active seats; so after the fold, and until somebody raises,
  the remaining players are asked again and again. Here seat 0 folds, seat 1 calls, seat
  2 checks, and eight more checks later the street is still waiting.
\<close>

lemma opener_folds_street_goes_on:
  "accepted_run three_seat_game 0 None
     [Fold, Call, Check, Check, Check, Check, Check, Check, Check, Check, Check] \<and>
   \<not> street_finished (betting_round three_seat_game
     [Fold, Call, Check, Check, Check, Check, Check, Check, Check, Check, Check]) \<and>
   turns_taken (betting_round three_seat_game
     [Fold, Call, Check, Check, Check, Check, Check, Check, Check, Check, Check]) = Some 11"
  by code_simp

section \<open>Results on hands of six and seven cards\<close>

text \<open>
  The counter of the ranks: its keys are distinct, each key is a rank of the hand with the
  number of its occurrences, and the counts add up to the number of cards.
\<close>

lemma sum_snd_counter_add:
  "sum_list (map snd (counter_add r kcs)) = Suc (sum_list (map snd kcs))"
  by (induction r kcs rule: counter_add.induct) simp_all

lemma sum_snd_fold_counter_add:
  "sum_list (map snd (fold counter_add rs acc)) = length rs + sum_list (map snd acc)"
  by (induction rs arbitrary: acc) (simp_all add: sum_snd_counter_add)

lemma sum_snd_Counter: "sum_list (map snd (Counter rs)) = length rs"
  by (simp add: Counter_def sum_snd_fold_counter_add)

lemma keys_counter_add:
  "map fst (counter_add r kcs) =
     (if r \<in> set (map fst kcs) then map fst kcs else map fst kcs @ [r])"
  by (induction r kcs rule: counter_add.induct) auto

lemma map_of_counter_add:
  "map_of (counter_add r kcs) =
     (map_of kcs)(r \<mapsto> (case map_of kcs r of None \<Rightarrow> 1 | Some c \<Rightarrow> c + 1))"
  by (induction r kcs rule: counter_add.induct) (auto simp: fun_eq_iff)

lemma distinct_fold_counter_add:
  "distinct (map fst acc) \<Longrightarrow> distinct (map fst (fold counter_add rs acc))"
  by (induction rs arbitrary: acc) (simp_all add: keys_counter_add)

lemma map_of_fold_counter_add:
  "map_of (fold counter_add rs acc) r =
     (case map_of acc r of
        None \<Rightarrow> if count_list rs r = 0 then None else Some (count_list rs r)
      | Some a \<Rightarrow> Some (a + count_list rs r))"
  by (induction rs arbitrary: acc) (auto simp: map_of_counter_add split: option.splits)

lemma distinct_Counter: "distinct (map fst (Counter rs))"
  by (simp add: Counter_def distinct_fold_counter_add)

lemma map_of_Counter:
  "map_of (Counter rs) r = (if count_list rs r = 0 then None else Some (count_list rs r))"
  by (simp add: Counter_def map_of_fold_counter_add)

lemma Counter_mem:
  "(k, c) \<in> set (Counter rs) \<longleftrightarrow> c = count_list rs k \<and> 0 < c"
  using map_of_eq_Some_iff [OF distinct_Counter, of rs k c]
  by (auto simp: map_of_Counter split: if_splits)


lemma first_filter_Counter:
  assumes "c \<in> set (map snd rc)"
  shows "\<exists>k. first (map fst (filter (\<lambda>(r, c'). c' = c) rc)) = Inr k \<and> (k, c) \<in> set rc"
proof -
  let ?f = "filter (\<lambda>(r, c'). c' = c) rc"
  from assms obtain k where "(k, c) \<in> set rc" by auto
  then have "(k, c) \<in> set ?f" by simp
  then obtain x xs where f: "?f = x # xs" by (cases ?f) auto
  then have "x \<in> set ?f" by simp
  then have "snd x = c" "x \<in> set rc" by auto
  then have "(fst x, c) \<in> set rc" by (cases x) auto
  then show ?thesis using f by (simp add: first_def)
qed

lemma count_list_all_eq: "\<forall>x \<in> set xs. x = a \<Longrightarrow> count_list xs a = length xs"
  by (induction xs) simp_all

lemma four_kicker:
  assumes "(k, 4) \<in> set (Counter rs)" and "length rs = 5"
  shows "\<exists>r. first (filter (\<lambda>r. r \<noteq> k) rs) = Inr r"
proof -
  have c: "count_list rs k = 4" using assms(1) by (simp add: Counter_mem)
  have "filter (\<lambda>r. r \<noteq> k) rs \<noteq> []"
  proof
    assume "filter (\<lambda>r. r \<noteq> k) rs = []"
    then have "\<forall>x \<in> set rs. x = k" by (simp add: filter_empty_conv)
    then have "count_list rs k = length rs" by (rule count_list_all_eq)
    then show False using c assms(2) by simp
  qed
  then show ?thesis by (cases "filter (\<lambda>r. r \<noteq> k) rs") (simp_all add: first_def)
qed

lemma sum_list_split_two:
  "sum_list vs = 2 * count_list vs 2 + sum_list (filter (\<lambda>v. v \<noteq> 2) vs)" for vs :: "nat list"
  by (induction vs) simp_all

lemma sum_list_one_mem: "sum_list ws = Suc 0 \<Longrightarrow> Suc 0 \<in> set ws" for ws :: "nat list"
  by (induction ws) (auto simp: add_is_1)

lemma two_pair_kicker:
  assumes "count_list (map snd (Counter rs)) 2 = 2" and "length rs = 5"
  shows "\<exists>r. first (filter (\<lambda>r. counter_get (Counter rs) r = 1) rs) = Inr r"
proof -
  let ?vs = "map snd (Counter rs)"
  have "sum_list ?vs = 5" using assms(2) by (simp add: sum_snd_Counter)
  then have "sum_list (filter (\<lambda>v. v \<noteq> 2) ?vs) = Suc 0"
    using sum_list_split_two [of ?vs] assms(1) by simp
  then have "Suc 0 \<in> set (filter (\<lambda>v. v \<noteq> 2) ?vs)" by (rule sum_list_one_mem)
  then have "Suc 0 \<in> set ?vs" by simp
  then obtain k where k: "(k, Suc 0) \<in> set (Counter rs)" by auto
  then have c: "count_list rs k = Suc 0" by (simp add: Counter_mem)
  have "k \<in> set rs"
  proof (rule ccontr)
    assume "k \<notin> set rs"
    then have "count_list rs k = 0" by (rule count_notin)
    then show False using c by simp
  qed
  have "counter_get (Counter rs) k = 1"
    using c by (simp add: counter_get_def map_of_Counter)
  with \<open>k \<in> set rs\<close> have "filter (\<lambda>r. counter_get (Counter rs) r = 1) rs \<noteq> []"
    by (auto simp: filter_empty_conv)
  then show ?thesis
    by (cases "filter (\<lambda>r. counter_get (Counter rs) r = 1) rs") (simp_all add: first_def)
qed

lemma score_chain_total:
  fixes rs :: "nat list"
  assumes len: "length rs = 5"
  shows "\<exists>s :: hand_score.
     (if A then Inr (9, [])
         else if B then Inr (8, [sh])
         else if 4 \<in> set (map snd (Counter rs)) then
           (case first (map fst (filter (\<lambda>(r, c). c = 4) (Counter rs))) of
              Inl e \<Rightarrow> Inl e
            | Inr four_rank \<Rightarrow>
                (case first (filter (\<lambda>r. r \<noteq> four_rank) rs) of
                   Inl e \<Rightarrow> Inl e
                 | Inr kicker \<Rightarrow> Inr (7, [four_rank, kicker])))
         else if 3 \<in> set (map snd (Counter rs)) \<and> 2 \<in> set (map snd (Counter rs)) then
           (case first (map fst (filter (\<lambda>(r, c). c = 3) (Counter rs))) of
              Inl e \<Rightarrow> Inl e
            | Inr three_rank \<Rightarrow>
                (case first (map fst (filter (\<lambda>(r, c). c = 2) (Counter rs))) of
                   Inl e \<Rightarrow> Inl e
                 | Inr two_rank \<Rightarrow> Inr (6, [three_rank, two_rank])))
         else if F then Inr (5, sorted_reverse id rs)
         else if S then Inr (4, [sh])
         else if 3 \<in> set (map snd (Counter rs)) then
           (case first (map fst (filter (\<lambda>(r, c). c = 3) (Counter rs))) of
              Inl e \<Rightarrow> Inl e
            | Inr three_rank \<Rightarrow>
                Inr (3, three_rank # sorted_reverse id (filter (\<lambda>r. r \<noteq> three_rank) rs)))
         else if count_list (map snd (Counter rs)) 2 = 2 then
           (case first (filter (\<lambda>r. counter_get (Counter rs) r = 1) rs) of
              Inl e \<Rightarrow> Inl e
            | Inr kicker \<Rightarrow>
                Inr (2, sorted_reverse id (map fst (filter (\<lambda>(r, c). c = 2) (Counter rs))) @ [kicker]))
         else if 2 \<in> set (map snd (Counter rs)) then
           (case first (map fst (filter (\<lambda>(r, c). c = 2) (Counter rs))) of
              Inl e \<Rightarrow> Inl e
            | Inr pair_rank \<Rightarrow>
                Inr (1, pair_rank # sorted_reverse id (filter (\<lambda>r. r \<noteq> pair_rank) rs)))
         else Inr (0, sorted_reverse id rs)) = Inr s"
proof -
  let ?rc = "Counter rs"
  have c4: "\<exists>k. first (map fst (filter (\<lambda>(r, c'). c' = 4) ?rc)) = Inr k \<and>
                (\<exists>r. first (filter (\<lambda>r. r \<noteq> k) rs) = Inr r)"
    if "4 \<in> set (map snd ?rc)"
    using first_filter_Counter [OF that] four_kicker [OF _ len] by blast
  have c3: "\<exists>k. first (map fst (filter (\<lambda>(r, c'). c' = 3) ?rc)) = Inr k"
    if "3 \<in> set (map snd ?rc)"
    using first_filter_Counter [OF that] by blast
  have c2: "\<exists>k. first (map fst (filter (\<lambda>(r, c'). c' = 2) ?rc)) = Inr k"
    if "2 \<in> set (map snd ?rc)"
    using first_filter_Counter [OF that] by blast
  have k2: "\<exists>r. first (filter (\<lambda>r. counter_get ?rc r = 1) rs) = Inr r"
    if "count_list (map snd ?rc) 2 = 2"
    using two_pair_kicker [OF that len] .
  show ?thesis
  proof (cases A)
    case True then show ?thesis by simp
  next
    case nA: False
    show ?thesis
    proof (cases B)
      case True then show ?thesis using nA by simp
    next
      case nB: False
      show ?thesis
      proof (cases "4 \<in> set (map snd ?rc)")
        case True
        from c4 [OF True] obtain k r where
          "first (map fst (filter (\<lambda>(r, c'). c' = 4) ?rc)) = Inr k"
          "first (filter (\<lambda>r. r \<noteq> k) rs) = Inr r" by blast
        then show ?thesis using nA nB True by simp
      next
        case n4: False
        show ?thesis
        proof (cases "3 \<in> set (map snd ?rc) \<and> 2 \<in> set (map snd ?rc)")
          case True
          from c3 c2 True obtain k k' where
            "first (map fst (filter (\<lambda>(r, c'). c' = 3) ?rc)) = Inr k"
            "first (map fst (filter (\<lambda>(r, c'). c' = 2) ?rc)) = Inr k'" by blast
          then show ?thesis using nA nB n4 True by simp
        next
          case n32: False
          show ?thesis
          proof (cases "F \<or> S")
            case True then show ?thesis using nA nB n4 n32 by auto
          next
            case nFS: False
            show ?thesis
            proof (cases "3 \<in> set (map snd ?rc)")
              case True
              from c3 [OF True] obtain k where
                "first (map fst (filter (\<lambda>(r, c'). c' = 3) ?rc)) = Inr k" by blast
              then show ?thesis using nA nB n4 n32 nFS True by simp
            next
              case n3: False
              show ?thesis
              proof (cases "count_list (map snd ?rc) 2 = 2")
                case True
                from k2 [OF True] obtain r where
                  "first (filter (\<lambda>r. counter_get ?rc r = 1) rs) = Inr r" by blast
                then show ?thesis using nA nB n4 n32 nFS n3 True by simp
              next
                case n22: False
                show ?thesis
                proof (cases "2 \<in> set (map snd ?rc)")
                  case True
                  from c2 [OF True] obtain k where
                    "first (map fst (filter (\<lambda>(r, c'). c' = 2) ?rc)) = Inr k" by blast
                  then show ?thesis using nA nB n4 n32 nFS n3 n22 True by simp
                next
                  case False
                  then show ?thesis using nA nB n4 n32 nFS n3 n22 by simp
                qed
              qed
            qed
          qed
        qed
      qed
    qed
  qed
qed

lemma evaluate_five_total:
  assumes "length cards = 5"
  shows "\<exists>s. evaluate_five cards = Inr s"
proof -
  have len: "length (map rank_value cards) = 5" using assms by simp
  show ?thesis
    unfolding evaluate_five_def Let_def
    by (rule score_chain_total [OF len])
qed


lemma collect_map_total:
  assumes "\<forall>x \<in> set xs. \<exists>y. f x = Inr y"
  shows "\<exists>ys. collect (map f xs) = Inr ys \<and> list_all2 (\<lambda>x y. f x = Inr y) xs ys"
  using assms
proof (induction xs)
  case Nil
  then show ?case by simp
next
  case (Cons x xs)
  then obtain y where y: "f x = Inr y" by auto
  from Cons obtain ys where "collect (map f xs) = Inr ys" "list_all2 (\<lambda>x y. f x = Inr y) xs ys"
    by auto
  then show ?case using y by simp
qed

lemma fold_max_key:
  "fold (\<lambda>y m. if key m < key y then y else m) xs x \<in> set (x # xs) \<and>
   (\<forall>y \<in> set (x # xs). key y \<le> key (fold (\<lambda>y m. if key m < key y then y else m) xs x))"
  for key :: "'a \<Rightarrow> 'k::linorder"
proof (induction xs arbitrary: x)
  case Nil
  then show ?case by simp
next
  case (Cons z zs)
  let ?x' = "if key x < key z then z else x"
  have a: "key x \<le> key ?x'" "key z \<le> key ?x'" "?x' \<in> {x, z}"
    by auto
  from Cons [of ?x'] have
    m: "fold (\<lambda>y m. if key m < key y then y else m) zs ?x' \<in> set (?x' # zs)"
    and b: "\<forall>y \<in> set (?x' # zs). key y \<le> key (fold (\<lambda>y m. if key m < key y then y else m) zs ?x')"
    by blast+
  have "key ?x' \<le> key (fold (\<lambda>y m. if key m < key y then y else m) zs ?x')"
    using b by simp
  then have "key x \<le> key (fold (\<lambda>y m. if key m < key y then y else m) zs ?x')"
    "key z \<le> key (fold (\<lambda>y m. if key m < key y then y else m) zs ?x')"
    using a(1,2) order_trans by blast+
  then show ?case using m b a(3) by auto
qed

lemma py_max_key_is_Max:
  fixes xs :: "hand_score list"
  assumes "xs \<noteq> []"
  shows "py_max_key (\<lambda>x. (fst x, snd x)) xs = Inr (Max (set xs))"
proof -
  obtain x xs' where xs: "xs = x # xs'" using assms by (cases xs) auto
  let ?m = "fold (\<lambda>y m. if (fst m, snd m) < (fst y, snd y) then y else m) xs' x"
  from fold_max_key [of "\<lambda>x. (fst x, snd x)" xs' x]
  have "?m \<in> set xs" "\<forall>y \<in> set xs. y \<le> ?m"
    by (simp_all add: xs)
  then have "Max (set xs) = ?m"
    by (intro Max_eqI) auto
  then show ?thesis by (simp add: xs)
qed

lemma filter_length_0_subseqs: "filter (\<lambda>h. length h = 0) (subseqs xs) = [[]]"
  by (induction xs) (simp_all add: Let_def filter_map o_def)

lemma combinations_subseqs:
  "combinations xs k = filter (\<lambda>h. length h = k) (subseqs xs)"
proof (induction xs k rule: combinations.induct)
  case (1 xs)
  then show ?case using filter_length_0_subseqs [of xs] by simp
next
  case (2 k)
  then show ?case by simp
next
  case (3 x xs k)
  then show ?case by (simp add: Let_def filter_map o_def)
qed

lemma length_combinations: "length (combinations xs k) = length xs choose k"
  by (induction xs k rule: combinations.induct) simp_all

lemma five_card_subsets_sets:
  assumes "distinct cards"
  shows "set ` set (five_card_subsets cards) = {S. S \<subseteq> set cards \<and> card S = 5}"
proof (intro set_eqI iffI)
  fix S
  assume "S \<in> set ` set (five_card_subsets cards)"
  then obtain h where h: "h \<in> set (subseqs cards)" "length h = 5" "S = set h"
    by (auto simp: five_card_subsets_def)
  have "distinct h" using subseqs_distinctD [OF h(1) assms] .
  then have "card S = 5" using h(2,3) by (simp add: distinct_card)
  moreover have "S \<in> Pow (set cards)"
    using h(1,3) subseqs_powset [of cards] by blast
  ultimately show "S \<in> {S. S \<subseteq> set cards \<and> card S = 5}" by simp
next
  fix S
  assume "S \<in> {S. S \<subseteq> set cards \<and> card S = 5}"
  then have S: "S \<in> Pow (set cards)" "card S = 5" by auto
  then obtain h where h: "h \<in> set (subseqs cards)" "set h = S"
    using subseqs_powset [of cards] by (metis (no_types, lifting) imageE)
  have "distinct h" using subseqs_distinctD [OF h(1) assms] .
  then have "length h = 5" using h(2) S(2) by (simp add: distinct_card [symmetric])
  then show "S \<in> set ` set (five_card_subsets cards)"
    using h by (auto simp: five_card_subsets_def)
qed

lemma list_all2_ex_left:
  "list_all2 P xs ys \<Longrightarrow> y \<in> set ys \<Longrightarrow> \<exists>x \<in> set xs. P x y"
  by (induction rule: list_all2_induct) auto

lemma list_all2_ex_right:
  "list_all2 P xs ys \<Longrightarrow> x \<in> set xs \<Longrightarrow> \<exists>y \<in> set ys. P x y"
  by (induction rule: list_all2_induct) auto

text \<open>
  Claim C4. For six or seven distinct cards \<open>evaluate_hand\<close> raises no exception and
  returns the score \<open>s\<close> that the enumeration of the specification gives: \<open>s\<close> is the
  score of one of the five-card subsets, and the score of every five-card subset is at
  most \<open>s\<close> in the lexicographic order of (category, tie-breakers). The hands
  enumerated are exactly the subsets of five of the cards, \<open>n choose 5\<close> of them:
  21 for seven cards.
\<close>

theorem evaluate_hand_best_of_five_card_subsets:
  assumes "distinct cards" and "length cards = 6 \<or> length cards = 7"
  shows "\<exists>s. evaluate_hand cards = Inr s \<and> best_five_card_score cards = Inr s \<and>
           (\<exists>h \<in> set (five_card_subsets cards). evaluate_hand h = Inr s) \<and>
           (\<forall>h \<in> set (five_card_subsets cards). \<exists>s'. evaluate_hand h = Inr s' \<and> s' \<le> s) \<and>
           set ` set (five_card_subsets cards) = {S. S \<subseteq> set cards \<and> card S = 5} \<and>
           length (five_card_subsets cards) = length cards choose 5"
proof -
  let ?hs = "five_card_subsets cards"
  have comb: "combinations cards 5 = ?hs"
    by (simp add: combinations_subseqs five_card_subsets_def)
  have cnt: "length ?hs = length cards choose 5"
    using length_combinations [of cards 5] comb by simp
  have ne: "?hs \<noteq> []"
    using cnt assms(2) by auto
  have five: "length h = 5" if "h \<in> set ?hs" for h
    using that by (simp add: five_card_subsets_def)
  have eh: "evaluate_hand h = evaluate_five h" if "h \<in> set ?hs" for h
    using five [OF that] by (simp add: evaluate_hand_def)
  have tot: "\<forall>h \<in> set ?hs. \<exists>s. evaluate_five h = Inr s"
    using five evaluate_five_total by blast
  from collect_map_total [OF tot] obtain scores where
    sc: "collect (map evaluate_five ?hs) = Inr scores"
    and rel: "list_all2 (\<lambda>h s. evaluate_five h = Inr s) ?hs scores"
    by blast
  have meq: "map evaluate_hand ?hs = map evaluate_five ?hs"
    by (rule map_cong [OF refl]) (rule eh)
  have sc': "collect (map evaluate_hand ?hs) = Inr scores"
    by (simp only: meq sc)
  have sne: "scores \<noteq> []"
    using rel ne by auto
  let ?s = "Max (set scores)"
  have big: "5 < length cards" using assms(2) by auto
  have e: "evaluate_hand cards = Inr ?s"
    using big sc comb py_max_key_is_Max [OF sne] by (simp add: evaluate_hand_def)
  have b: "best_five_card_score cards = Inr ?s"
    by (simp add: best_five_card_score_def sc')
  have "?s \<in> set scores" using sne by (intro Max_in) auto
  then obtain h where "h \<in> set ?hs" "evaluate_five h = Inr ?s"
    using list_all2_ex_left [OF rel] by blast
  then have ex: "\<exists>h \<in> set ?hs. evaluate_hand h = Inr ?s"
    using eh by auto
  have all: "\<forall>h \<in> set ?hs. \<exists>s'. evaluate_hand h = Inr s' \<and> s' \<le> ?s"
  proof
    fix h assume h: "h \<in> set ?hs"
    then obtain s' where "s' \<in> set scores" "evaluate_five h = Inr s'"
      using list_all2_ex_right [OF rel] by blast
    then show "\<exists>s'. evaluate_hand h = Inr s' \<and> s' \<le> ?s"
      using eh [OF h] by auto
  qed
  show ?thesis
    using e b ex all five_card_subsets_sets [OF assms(1)] cnt by blast
qed

theorem evaluate_hand_best_of_five_card_subsets_witness:
  "distinct seven_cards \<and> length seven_cards = 7 \<and>
   evaluate_hand seven_cards = Inr (6, [5, 12]) \<and>
   best_five_card_score seven_cards = Inr (6, [5, 12]) \<and>
   length (five_card_subsets seven_cards) = 21"
proof -
  have d: "distinct seven_cards" by (simp add: seven_cards_def Card_def)
  have l7: "length seven_cards = 7" by (simp add: seven_cards_def)
  then have l: "length seven_cards = 6 \<or> length seven_cards = 7" by simp
  have e: "evaluate_hand seven_cards = Inr (6, [5, 12])" by code_simp
  have c: "(7::nat) choose 5 = 21" by (simp add: eval_nat_numeral)
  from evaluate_hand_best_of_five_card_subsets [OF d l] obtain s where
    s: "evaluate_hand seven_cards = Inr s" "best_five_card_score seven_cards = Inr s"
      "length (five_card_subsets seven_cards) = length seven_cards choose 5"
    by blast
  have "s = (6, [5, 12])" using s(1) e by simp
  then have b: "best_five_card_score seven_cards = Inr (6, [5, 12])"
    using s(2) by (simp only:)
  have n: "length (five_card_subsets seven_cards) = 21"
    by (simp only: s(3) l7 c)
  show ?thesis by (intro conjI d l7 e b n)
qed

end
